theory Spec2Isabelle
  imports Main "HOL-Library.Word"
begin

unbundle bit_operations_syntax

section \<open>Data model (types/types.go)\<close>

type_synonym byte = "8 word"

text \<open>\<^verbatim>\<open>type Operator uint8\<close>: any byte value can occur (the decoder casts a raw byte),
  so the operator is an 8-bit word and the five named kinds are constants.\<close>

type_synonym Operator = "8 word"

definition OP_COPY :: Operator where "OP_COPY = 0x01"
definition OP_INSERT :: Operator where "OP_INSERT = 0x02"
definition OP_REPLACE :: Operator where "OP_REPLACE = 0x03"
definition OP_MATCH :: Operator where "OP_MATCH = 0x04"
definition OP_DELETE :: Operator where "OP_DELETE = 0x05"

lemmas OP_defs = OP_COPY_def OP_INSERT_def OP_REPLACE_def OP_MATCH_def OP_DELETE_def

text \<open>\<^verbatim>\<open>type Patch struct { Op Operator; Offset int64; Length int64; Data []byte }\<close>.
  The two \<^verbatim>\<open>int64\<close> fields are 64-bit words read in two's complement (\<open>sint\<close>).
  A byte slice is modelled by its contents: \<^verbatim>\<open>nil\<close> and the empty slice are both \<open>[]\<close>,
  and that two slices may share a backing array is not modelled.\<close>

record Patch =
  Op :: Operator
  Offset :: "64 word"
  Length :: "64 word"
  Data :: "byte list"

section \<open>The patch optimizer (OptimizePatches)\<close>

text \<open>The inner loop of \<^verbatim>\<open>OptimizePatches\<close>: \<open>current\<close> absorbs the following
  operations as long as the next one is an adjacent INSERT (lengths added, data appended)
  or an adjacent COPY (lengths added); it stops at the first operation that is neither.
  The result is the merged operation and the operations not yet consumed.\<close>

fun mergeRun :: "Patch \<Rightarrow> Patch list \<Rightarrow> Patch \<times> Patch list" where
  "mergeRun current [] = (current, [])"
| "mergeRun current (nxt # rest) =
     (if Op current = OP_INSERT \<and> Op nxt = OP_INSERT \<and>
         Offset current + Length current = Offset nxt
      then mergeRun (current\<lparr>Length := Length current + Length nxt,
                             Data := Data current @ Data nxt\<rparr>) rest
      else if Op current = OP_COPY \<and> Op nxt = OP_COPY \<and>
         Offset current + Length current = Offset nxt
      then mergeRun (current\<lparr>Length := Length current + Length nxt\<rparr>) rest
      else (current, nxt # rest))"

lemma mergeRun_length: "length (snd (mergeRun c ps)) \<le> length ps"
  by (induction ps arbitrary: c) (auto intro: le_SucI)

text \<open>The outer loop: take the operation at index \<open>i\<close>, let it absorb what follows,
  append the result to \<open>optimized\<close> and go on after the last absorbed operation.\<close>

function optimizeLoop :: "Patch list \<Rightarrow> Patch list" where
  "optimizeLoop [] = []"
| "optimizeLoop (p # ps) =
     (case mergeRun p ps of (current, rest) \<Rightarrow> current # optimizeLoop rest)"
  by pat_completeness auto
termination
proof (relation "measure length")
  show "wf (measure length)" by simp
next
  fix p :: Patch and ps x1 x2
  assume "(x1, x2) = mergeRun p ps"
  then have "x2 = snd (mergeRun p ps)" by (metis snd_conv)
  then have "length x2 \<le> length ps" by (simp add: mergeRun_length)
  then show "(x2, p # ps) \<in> measure length" by simp
qed

definition OptimizePatches :: "Patch list \<Rightarrow> Patch list" where
  "OptimizePatches patches =
     (if length patches \<le> 1 then patches else optimizeLoop patches)"

section \<open>The reference differ (sequentialDiff)\<close>

text \<open>The two inner scans of \<^verbatim>\<open>sequentialDiff\<close>:
  \<^verbatim>\<open>for i < minLen && oldData[i] == newData[i] { i++ }\<close> and its counterpart with
  \<^verbatim>\<open>!=\<close>. Both return the index at which the scan stops.\<close>

function scanEqual :: "byte list \<Rightarrow> byte list \<Rightarrow> nat \<Rightarrow> nat \<Rightarrow> nat" where
  "scanEqual oldData newData minLen i =
     (if i < minLen \<and> oldData ! i = newData ! i
      then scanEqual oldData newData minLen (i + 1) else i)"
  by pat_completeness auto
termination
  by (relation "measure (\<lambda>(oldData, newData, minLen, i). minLen - i)") auto

function scanDiffer :: "byte list \<Rightarrow> byte list \<Rightarrow> nat \<Rightarrow> nat \<Rightarrow> nat" where
  "scanDiffer oldData newData minLen i =
     (if i < minLen \<and> oldData ! i \<noteq> newData ! i
      then scanDiffer oldData newData minLen (i + 1) else i)"
  by pat_completeness auto
termination
  by (relation "measure (\<lambda>(oldData, newData, minLen, i). minLen - i)") auto

declare scanEqual.simps [simp del] scanDiffer.simps [simp del]

lemma scanEqual_ge: "i \<le> scanEqual oldData newData minLen i"
proof (induction oldData newData minLen i rule: scanEqual.induct)
  case (1 oldData newData minLen i)
  show ?case
  proof (cases "i < minLen \<and> oldData ! i = newData ! i")
    case True
    then have "i + 1 \<le> scanEqual oldData newData minLen (i + 1)" using 1 by simp
    then show ?thesis using True by (subst scanEqual.simps) simp
  next
    case False
    then show ?thesis by (subst scanEqual.simps) auto
  qed
qed

lemma scanDiffer_ge: "i \<le> scanDiffer oldData newData minLen i"
proof (induction oldData newData minLen i rule: scanDiffer.induct)
  case (1 oldData newData minLen i)
  show ?case
  proof (cases "i < minLen \<and> oldData ! i \<noteq> newData ! i")
    case True
    then have "i + 1 \<le> scanDiffer oldData newData minLen (i + 1)" using 1 by simp
    then show ?thesis using True by (subst scanDiffer.simps) simp
  next
    case False
    then show ?thesis by (subst scanDiffer.simps) auto
  qed
qed

lemma scanEqual_gt:
  "i < minLen \<Longrightarrow> oldData ! i = newData ! i \<Longrightarrow> i < scanEqual oldData newData minLen i"
  using scanEqual_ge [of "i + 1" oldData newData minLen]
  by (subst scanEqual.simps) simp

lemma scanDiffer_gt:
  "i < minLen \<Longrightarrow> oldData ! i \<noteq> newData ! i \<Longrightarrow> i < scanDiffer oldData newData minLen i"
  using scanDiffer_ge [of "i + 1" oldData newData minLen]
  by (subst scanDiffer.simps) simp

text \<open>The main loop of \<^verbatim>\<open>sequentialDiff\<close>. At index \<open>i\<close> it opens a COPY run when
  the bytes agree and a REPLACE run (with \<^verbatim>\<open>newData[start:i]\<close> as data) when they do
  not, and appends the operation to \<open>patches\<close>. \<^verbatim>\<open>int64(start)\<close> and
  \<^verbatim>\<open>int64(i - start)\<close> are the conversions \<open>of_nat\<close> into 64-bit words.
  The cancellation poll and the progress bar do not touch the result
  (\<^verbatim>\<open>Diff\<close> passes \<^verbatim>\<open>context.Background()\<close>, which is never cancelled).\<close>

function diffLoop :: "byte list \<Rightarrow> byte list \<Rightarrow> nat \<Rightarrow> nat \<Rightarrow> Patch list \<Rightarrow> Patch list" where
  "diffLoop oldData newData minLen i patches =
     (if i < minLen then
        (if oldData ! i = newData ! i then
           (let j = scanEqual oldData newData minLen i in
            diffLoop oldData newData minLen j
              (patches @ [\<lparr>Op = OP_COPY, Offset = of_nat i, Length = of_nat (j - i),
                           Data = []\<rparr>]))
         else
           (let j = scanDiffer oldData newData minLen i in
            diffLoop oldData newData minLen j
              (patches @ [\<lparr>Op = OP_REPLACE, Offset = of_nat i, Length = of_nat (j - i),
                           Data = take (j - i) (drop i newData)\<rparr>])))
      else patches)"
  by pat_completeness auto
termination
proof (relation "measure (\<lambda>(oldData, newData, minLen, i, patches). minLen - i)")
  show "wf (measure (\<lambda>(oldData, newData, minLen, i, patches). minLen - i))" by simp
next
  fix oldData newData :: "byte list" and minLen i :: nat and patches :: "Patch list" and x
  assume "i < minLen" "oldData ! i = newData ! i" "x = scanEqual oldData newData minLen i"
  then have "i < x" by (simp add: scanEqual_gt)
  then show "((oldData, newData, minLen, x,
               patches @ [\<lparr>Op = OP_COPY, Offset = of_nat i, Length = of_nat (x - i), Data = []\<rparr>]),
              (oldData, newData, minLen, i, patches))
             \<in> measure (\<lambda>(oldData, newData, minLen, i, patches). minLen - i)"
    using \<open>i < minLen\<close> by simp
next
  fix oldData newData :: "byte list" and minLen i :: nat and patches :: "Patch list" and x
  assume "i < minLen" "oldData ! i \<noteq> newData ! i" "x = scanDiffer oldData newData minLen i"
  then have "i < x" by (simp add: scanDiffer_gt)
  then show "((oldData, newData, minLen, x,
               patches @ [\<lparr>Op = OP_REPLACE, Offset = of_nat i, Length = of_nat (x - i),
                            Data = take (x - i) (drop i newData)\<rparr>]),
              (oldData, newData, minLen, i, patches))
             \<in> measure (\<lambda>(oldData, newData, minLen, i, patches). minLen - i)"
    using \<open>i < minLen\<close> by simp
qed

declare diffLoop.simps [simp del]

text \<open>\<^verbatim>\<open>sequentialDiff\<close>: the scan over the common prefix region, then one tail
  INSERT when \<open>newData\<close> is longer or one tail DELETE when \<open>oldData\<close> is longer.\<close>

definition sequentialDiff :: "byte list \<Rightarrow> byte list \<Rightarrow> Patch list" where
  "sequentialDiff oldData newData =
     (let minLen = (if length newData < length oldData then length newData
                    else length oldData);
          patches = diffLoop oldData newData minLen 0 []
      in if length newData > minLen
         then patches @ [\<lparr>Op = OP_INSERT, Offset = of_nat minLen,
                           Length = of_nat (length newData - minLen),
                           Data = drop minLen newData\<rparr>]
         else if length oldData > minLen
         then patches @ [\<lparr>Op = OP_DELETE, Offset = of_nat minLen,
                           Length = of_nat (length oldData - minLen), Data = []\<rparr>]
         else patches)"

section \<open>The applier (ApplyPatchWithOptions)\<close>

text \<open>Run-time panics of the Go code are values of the model: \<^verbatim>\<open>make\<close> with a
  negative size, and a slice expression whose bounds are not \<open>0 \<le> low \<le> high \<le> len\<close>.
  Sizes that are not negative are taken to be allocatable: running out of memory is
  outside the model.\<close>

datatype panic = MakeSliceOutOfRange | SliceBoundsOutOfRange

text \<open>The slice expression \<^verbatim>\<open>s[low:high]\<close> on Go \<^verbatim>\<open>int\<close> bounds. Go checks
  \<open>high\<close> against the capacity; the three slice expressions of the applier are guarded so
  that \<open>high\<close> is at most \<^verbatim>\<open>len(oldData)\<close>, and the length stands for the capacity.\<close>

definition slice :: "byte list \<Rightarrow> int \<Rightarrow> int \<Rightarrow> panic + byte list" where
  "slice s low high =
     (if 0 \<le> low \<and> low \<le> high \<and> high \<le> int (length s)
      then Inr (take (nat high - nat low) (drop (nat low) s))
      else Inl SliceBoundsOutOfRange)"

text \<open>The state of the replay loop: the read cursor (a Go \<^verbatim>\<open>int\<close>, 64 bits, whose
  additions wrap around) and the output buffer \<^verbatim>\<open>newData\<close>.\<close>

type_synonym apply_state = "64 word \<times> byte list"

text \<open>One iteration of the replay loop of \<^verbatim>\<open>ApplyPatchWithOptions\<close>, in the order of
  the source: the offset check (skip), the gap copy, then the switch on the operator.\<close>

definition applyOp :: "byte list \<Rightarrow> Patch \<Rightarrow> apply_state \<Rightarrow> panic + apply_state" where
  "applyOp oldData patch st =
     (case st of (cursor, newData) \<Rightarrow>
      if sint (Offset patch) > int (length oldData) then Inr (cursor, newData)
      else
        (case (if sint (Offset patch) > sint cursor
               then (case slice oldData (sint cursor) (sint (Offset patch)) of
                       Inl e \<Rightarrow> Inl e
                     | Inr gap \<Rightarrow> Inr (Offset patch, newData @ gap))
               else Inr (cursor, newData)) of
           Inl e \<Rightarrow> Inl e
         | Inr (cursor, newData) \<Rightarrow>
             if Op patch = OP_INSERT then Inr (cursor, newData @ Data patch)
             else if Op patch = OP_REPLACE
             then Inr (cursor + Length patch, newData @ Data patch)
             else if Op patch = OP_DELETE then Inr (cursor + Length patch, newData)
             else if Op patch = OP_COPY \<or> Op patch = OP_MATCH then
               (let endPos0 = cursor + Length patch;
                    endPos = (if sint endPos0 > int (length oldData)
                              then of_nat (length oldData) else endPos0)
                in if sint cursor < int (length oldData) \<and> sint endPos > sint cursor
                   then (case slice oldData (sint cursor) (sint endPos) of
                           Inl e \<Rightarrow> Inl e
                         | Inr seg \<Rightarrow> Inr (endPos, newData @ seg))
                   else Inr (cursor, newData))
             else Inr (cursor, newData)))"

fun applyLoop :: "byte list \<Rightarrow> Patch list \<Rightarrow> apply_state \<Rightarrow> panic + apply_state" where
  "applyLoop oldData [] st = Inr st"
| "applyLoop oldData (p # ps) st =
     (case applyOp oldData p st of
        Inl e \<Rightarrow> Inl e
      | Inr st' \<Rightarrow> applyLoop oldData ps st')"

text \<open>The size estimate that pre-sizes the output buffer: the \<^verbatim>\<open>int64\<close> sum of the
  lengths of the INSERT, REPLACE, COPY and MATCH operations.\<close>

definition estimateStep :: "Patch \<Rightarrow> 64 word \<Rightarrow> 64 word" where
  "estimateStep p acc =
     (if Op p = OP_INSERT \<or> Op p = OP_REPLACE \<or> Op p = OP_COPY \<or> Op p = OP_MATCH
      then acc + Length p else acc)"

definition estimatedSize :: "Patch list \<Rightarrow> 64 word" where
  "estimatedSize patches = fold estimateStep patches 0"

text \<open>\<^verbatim>\<open>ApplyPatchWithOptions\<close> with a context that is never cancelled (as
  \<^verbatim>\<open>ApplyPatch\<close> and \<^verbatim>\<open>runApply\<close> without a timeout call it): the buffer
  \<^verbatim>\<open>make([]byte, 0, estimatedSize)\<close>, the replay loop from cursor 0, and the copy of
  what is left of \<open>oldData\<close> after the cursor.\<close>

definition ApplyPatchWithOptions :: "byte list \<Rightarrow> Patch list \<Rightarrow> panic + byte list" where
  "ApplyPatchWithOptions oldData patches =
     (if sint (estimatedSize patches) < 0 then Inl MakeSliceOutOfRange
      else
        (case applyLoop oldData patches (0, []) of
           Inl e \<Rightarrow> Inl e
         | Inr (cursor, newData) \<Rightarrow>
             if sint cursor < int (length oldData)
             then (case slice oldData (sint cursor) (int (length oldData)) of
                     Inl e \<Rightarrow> Inl e
                   | Inr rest \<Rightarrow> Inr (newData @ rest))
             else Inr newData))"

section \<open>The codec (EncodePatch, DecodePatch, EncodeDiffFile, DecodeDiffFile)\<close>

text \<open>\<^verbatim>\<open>type DiffFile struct\<close>. The header's \<^verbatim>\<open>Offset int32\<close> is the field
  \<open>AlignOffset\<close> here (the name \<open>Offset\<close> is taken by \<open>Patch\<close>).\<close>

record DiffFile =
  MagicNumber :: "32 word"
  Version :: "32 word"
  OldFileNameLength :: "32 word"
  FileName :: "byte list"
  NewFileNameLength :: "32 word"
  NewFileName :: "byte list"
  OldSize :: "32 word"
  NewSize :: "32 word"
  OldHash :: "byte list"
  NewHash :: "byte list"
  AlignOffset :: "32 word"
  DataLength :: "32 word"
  Diff :: "Patch list"

definition PATCH_MAGIC :: "32 word" where "PATCH_MAGIC = 0x42444646"
definition PATCH_VERSION :: "32 word" where "PATCH_VERSION = 1"

text \<open>Little-endian byte strings of a fixed width, as \<^verbatim>\<open>binary.Write\<close> and
  \<^verbatim>\<open>binary.Read\<close> with \<^verbatim>\<open>binary.LittleEndian\<close> produce and consume them:
  byte \<open>k\<close> holds bits \<open>8k\<close> to \<open>8k + 7\<close>. A signed field is written in two's
  complement, that is as the bits of its word.\<close>

fun le_bytes :: "nat \<Rightarrow> 'a::len word \<Rightarrow> byte list" where
  "le_bytes 0 w = []"
| "le_bytes (Suc n) w = ucast w # le_bytes n (drop_bit 8 w)"

fun le_word :: "byte list \<Rightarrow> 'a::len word" where
  "le_word [] = 0"
| "le_word (b # bs) = ucast b OR push_bit 8 (le_word bs)"

definition put_u32 :: "32 word \<Rightarrow> byte list" where
  "put_u32 w = le_bytes 4 w"

definition put_i64 :: "64 word \<Rightarrow> byte list" where
  "put_i64 w = le_bytes 8 w"

text \<open>\<^verbatim>\<open>EncodePatch\<close>: per entry the operator byte, offset and length as 8 bytes each,
  and the data for INSERT and REPLACE only.\<close>

definition encodeEntry :: "Patch \<Rightarrow> byte list" where
  "encodeEntry entry =
     Op entry # put_i64 (Offset entry) @ put_i64 (Length entry) @
     (if Op entry = OP_INSERT \<or> Op entry = OP_REPLACE then Data entry else [])"

definition EncodePatch :: "Patch list \<Rightarrow> byte list" where
  "EncodePatch p = concat (map encodeEntry p)"

text \<open>\<^verbatim>\<open>EncodeDiffFile\<close>: the header fields in order, then the length of the encoded
  operation stream converted to \<^verbatim>\<open>uint32\<close> (\<open>of_nat\<close> into a 32-bit word, which
  truncates), then the stream.\<close>

definition EncodeDiffFile :: "DiffFile \<Rightarrow> byte list" where
  "EncodeDiffFile df =
     (let diffBytes = EncodePatch (Diff df) in
      put_u32 (MagicNumber df) @ put_u32 (Version df) @
      put_u32 (OldFileNameLength df) @ FileName df @
      put_u32 (NewFileNameLength df) @ NewFileName df @
      put_u32 (OldSize df) @ put_u32 (NewSize df) @
      OldHash df @ NewHash df @
      put_u32 (AlignOffset df) @
      put_u32 (of_nat (length diffBytes)) @ diffBytes)"

text \<open>A \<^verbatim>\<open>bytes.Reader\<close> is modelled by the bytes not yet read. The two errors a read
  can return are \<^verbatim>\<open>io.EOF\<close> and \<^verbatim>\<open>io.ErrUnexpectedEOF\<close>.\<close>

datatype error = EOF | ErrUnexpectedEOF

type_synonym reader = "byte list"

text \<open>\<^verbatim>\<open>io.ReadFull(r, buf)\<close> for a zeroed buffer of \<open>n\<close> bytes: the buffer after
  the call, the error, and the reader after the call. A buffer of length 0 is always
  filled; at the end of the input the error is \<^verbatim>\<open>EOF\<close>; a short input is consumed
  entirely, copied to the front of the buffer, and the error is \<^verbatim>\<open>ErrUnexpectedEOF\<close>.\<close>

definition ReadFull :: "nat \<Rightarrow> reader \<Rightarrow> (byte list \<times> error option) \<times> reader" where
  "ReadFull n r =
     (if n = 0 then (([], None), r)
      else if r = [] then ((replicate n 0, Some EOF), [])
      else if length r < n
      then ((r @ replicate (n - length r) 0, Some ErrUnexpectedEOF), [])
      else ((take n r, None), drop n r))"

text \<open>\<^verbatim>\<open>binary.Read(r, binary.LittleEndian, &x)\<close> for a fixed-size integer of \<open>n\<close>
  bytes: it reads \<open>n\<close> bytes with \<^verbatim>\<open>io.ReadFull\<close> and decodes them, or returns the
  error of the read and leaves \<open>x\<close> alone.\<close>

definition binary_Read :: "nat \<Rightarrow> reader \<Rightarrow> (error + 'a::len word) \<times> reader" where
  "binary_Read n r =
     (case ReadFull n r of
        ((bs, None), r') \<Rightarrow> (Inr (le_word bs), r')
      | ((bs, Some e), r') \<Rightarrow> (Inl e, r'))"

lemma ReadFull_length: "length (snd (ReadFull n r)) \<le> length r"
  by (simp add: ReadFull_def)

lemma binary_Read_length:
  "length (snd (binary_Read n r :: (error + 'a::len word) \<times> reader)) \<le> length r"
  using ReadFull_length [of n r]
  by (auto simp: binary_Read_def split: prod.splits option.splits)

text \<open>The loop of \<^verbatim>\<open>DecodePatch\<close>. While the reader is not empty: the operator byte
  (\<^verbatim>\<open>ReadByte\<close> cannot fail there), offset and length; for INSERT and REPLACE the
  buffer \<^verbatim>\<open>make([]byte, length)\<close>, which panics when \<open>length\<close> is negative, filled by
  \<^verbatim>\<open>io.ReadFull\<close>. A read error returns the operations decoded so far and the error.\<close>

function decodeLoop :: "reader \<Rightarrow> Patch list \<Rightarrow> panic + (Patch list \<times> error option)" where
  "decodeLoop r p =
     (case r of
        [] \<Rightarrow> Inr (p, None)
      | opByte # r1 \<Rightarrow>
          (case binary_Read 8 r1 of
             (Inl e, r2) \<Rightarrow> Inr (p, Some e)
           | (Inr offset, r2) \<Rightarrow>
               (case binary_Read 8 r2 of
                  (Inl e, r3) \<Rightarrow> Inr (p, Some e)
                | (Inr len, r3) \<Rightarrow>
                    if opByte = OP_INSERT \<or> opByte = OP_REPLACE then
                      (if sint len < 0 then Inl MakeSliceOutOfRange
                       else
                         (case ReadFull (nat (sint len)) r3 of
                            ((data, Some e), r4) \<Rightarrow> Inr (p, Some e)
                          | ((data, None), r4) \<Rightarrow>
                              decodeLoop r4
                                (p @ [\<lparr>Op = opByte, Offset = offset,
                                       Length = len, Data = data\<rparr>])))
                    else
                      decodeLoop r3
                        (p @ [\<lparr>Op = opByte, Offset = offset,
                               Length = len, Data = []\<rparr>]))))"
  by pat_completeness auto
termination
proof (relation "measure (\<lambda>(r, p). length r)")
  show "wf (measure (\<lambda>(r, p). length r))" by simp
next
  fix r p opByte r1 r2 r3 r4 data z e
    and x y :: "error + 64 word" and offset len :: "64 word"
  assume "r = opByte # r1" "(x, r2) = binary_Read 8 r1" "(y, r3) = binary_Read 8 r2"
    "(z, r4) = ReadFull (nat (sint len)) r3"
  then have "r2 = snd (binary_Read 8 r1 :: (error + 64 word) \<times> reader)"
    "r3 = snd (binary_Read 8 r2 :: (error + 64 word) \<times> reader)"
    "r4 = snd (ReadFull (nat (sint len)) r3)"
    by (metis snd_conv)+
  then have "length r4 \<le> length r1"
    using binary_Read_length [of 8 r1, where ?'a = 64]
      binary_Read_length [of 8 r2, where ?'a = 64]
      ReadFull_length [of "nat (sint len)" r3]
    by simp
  then show "((r4, p @ [\<lparr>Op = opByte, Offset = offset, Length = len,
                         Data = data\<rparr>]), (r, p)) \<in> measure (\<lambda>(r, p). length r)"
    using \<open>r = opByte # r1\<close> by simp
next
  fix r p opByte r1 r2 r3
    and x y :: "error + 64 word" and offset len :: "64 word"
  assume "r = opByte # r1" "(x, r2) = binary_Read 8 r1" "(y, r3) = binary_Read 8 r2"
  then have "r2 = snd (binary_Read 8 r1 :: (error + 64 word) \<times> reader)"
    "r3 = snd (binary_Read 8 r2 :: (error + 64 word) \<times> reader)"
    by (metis snd_conv)+
  then have "length r3 \<le> length r1"
    using binary_Read_length [of 8 r1, where ?'a = 64]
      binary_Read_length [of 8 r2, where ?'a = 64] by simp
  then show "((r3, p @ [\<lparr>Op = opByte, Offset = offset, Length = len,
                         Data = []\<rparr>]), (r, p)) \<in> measure (\<lambda>(r, p). length r)"
    using \<open>r = opByte # r1\<close> by simp
qed

declare decodeLoop.simps [simp del]

definition DecodePatch :: "byte list \<Rightarrow> panic + (Patch list \<times> error option)" where
  "DecodePatch b = decodeLoop b []"

text \<open>A header read of \<^verbatim>\<open>DecodeDiffFile\<close>: \<^verbatim>\<open>binary.Read\<close> into a \<^verbatim>\<open>uint32\<close> (or
  \<^verbatim>\<open>int32\<close>) field whose error is dropped, so that on a failed read the field keeps
  the value it had.\<close>

definition readU32 :: "32 word \<Rightarrow> reader \<Rightarrow> 32 word \<times> reader" where
  "readU32 field r =
     (case binary_Read 4 r of
        (Inr v, r') \<Rightarrow> (v, r')
      | (Inl e, r') \<Rightarrow> (field, r'))"

text \<open>\<^verbatim>\<open>DecodeDiffFile\<close>: every header field is read into the zero-valued record
  in order, no read is checked and no field is compared with anything; only the error
  of \<^verbatim>\<open>DecodePatch\<close> on the \<open>DataLength\<close> bytes that follow is returned (with the
  header read so far and no operations).\<close>

definition DecodeDiffFile :: "byte list \<Rightarrow> panic + (DiffFile \<times> error option)" where
  "DecodeDiffFile data =
     (case readU32 0 data of (magic, r1) \<Rightarrow>
      case readU32 0 r1 of (version, r2) \<Rightarrow>
      case readU32 0 r2 of (oldNameLen, r3) \<Rightarrow>
      case ReadFull (unat oldNameLen) r3 of ((fileName, e1), r4) \<Rightarrow>
      case readU32 0 r4 of (newNameLen, r5) \<Rightarrow>
      case ReadFull (unat newNameLen) r5 of ((newFileName, e2), r6) \<Rightarrow>
      case readU32 0 r6 of (oldSize, r7) \<Rightarrow>
      case readU32 0 r7 of (newSize, r8) \<Rightarrow>
      case ReadFull 32 r8 of ((oldHash, e3), r9) \<Rightarrow>
      case ReadFull 32 r9 of ((newHash, e4), r10) \<Rightarrow>
      case readU32 0 r10 of (offset, r11) \<Rightarrow>
      case readU32 0 r11 of (dataLength, r12) \<Rightarrow>
      case ReadFull (unat dataLength) r12 of ((diffData, e5), r13) \<Rightarrow>
        (let df = \<lparr>MagicNumber = magic, Version = version,
                    OldFileNameLength = oldNameLen, FileName = fileName,
                    NewFileNameLength = newNameLen, NewFileName = newFileName,
                    OldSize = oldSize, NewSize = newSize,
                    OldHash = oldHash, NewHash = newHash,
                    AlignOffset = offset, DataLength = dataLength, Diff = []\<rparr>
         in case DecodePatch diffData of
              Inl pn \<Rightarrow> Inl pn
            | Inr (patch, Some err) \<Rightarrow> Inr (df, Some err)
            | Inr (patch, None) \<Rightarrow> Inr (df\<lparr>Diff := patch\<rparr>, None)))"

section \<open>Strategy selection and the streaming differ (DiffWithOptions, streamingDiff)\<close>

text \<open>The fields of \<^verbatim>\<open>config.Config\<close> that the differ reads. A Go \<^verbatim>\<open>int\<close> is a
  64-bit word; products wrap around and comparisons are signed.\<close>

record Config =
  BlockSize :: "64 word"
  MinMatchLength :: "64 word"
  MaxMemoryMB :: "64 word"
  MaxWorkers :: "64 word"
  UseParallel :: bool

text \<open>Go's integer division truncates towards zero.\<close>

definition go_div :: "int \<Rightarrow> int \<Rightarrow> int" where
  "go_div a b = sgn a * sgn b * (\<bar>a\<bar> div \<bar>b\<bar>)"

text \<open>The unexported \<^verbatim>\<open>optimizePatches\<close> that the streaming differ calls. It merges
  an operation into the last optimized one only when both are INSERT and adjacent
  (\<^verbatim>\<open>canMergePatches\<close>, \<^verbatim>\<open>mergePatches\<close>).\<close>

definition canMergePatches :: "Patch \<Rightarrow> Patch \<Rightarrow> bool" where
  "canMergePatches p1 p2 \<longleftrightarrow>
     Op p1 = Op p2 \<and> Op p1 = OP_INSERT \<and> Offset p1 + Length p1 = Offset p2"

definition mergePatches :: "Patch \<Rightarrow> Patch \<Rightarrow> Patch" where
  "mergePatches p1 p2 = p1\<lparr>Length := Length p1 + Length p2, Data := Data p1 @ Data p2\<rparr>"

text \<open>One iteration with index \<open>i > 0\<close>; \<open>optimized\<close> is not empty there.\<close>

definition optimizeStep :: "Patch \<Rightarrow> Patch list \<Rightarrow> Patch list" where
  "optimizeStep patch optimized =
     (if canMergePatches (last optimized) patch
      then butlast optimized @ [mergePatches (last optimized) patch]
      else optimized @ [patch])"

definition optimizePatches :: "Patch list \<Rightarrow> Patch list" where
  "optimizePatches patches =
     (if length patches \<le> 1 then patches
      else fold optimizeStep (tl patches) [hd patches])"

text \<open>The window loop of \<^verbatim>\<open>streamingDiff\<close>: the window \<^verbatim>\<open>newData[offset:end]\<close> is
  diffed against the whole of \<open>oldData\<close>, the offsets of its operations are shifted by
  \<open>offset\<close>, and the operations are appended. \<open>chunkSize\<close> is positive when the loop is
  entered; the test \<open>0 < chunkSize\<close> only makes the recursion total. Window bounds of
  data held in memory stay far below \<open>2 ^ 63\<close>, so they are natural numbers.\<close>

function streamLoop ::
  "byte list \<Rightarrow> byte list \<Rightarrow> nat \<Rightarrow> nat \<Rightarrow> Patch list \<Rightarrow> Patch list" where
  "streamLoop oldData newData chunkSize offset patches =
     (if offset < length newData \<and> 0 < chunkSize then
        (let wend = (if offset + chunkSize > length newData then length newData
                     else offset + chunkSize);
             chunkPatches = sequentialDiff oldData (take (wend - offset) (drop offset newData));
             shifted = map (\<lambda>p. p\<lparr>Offset := Offset p + of_nat offset\<rparr>) chunkPatches
         in streamLoop oldData newData chunkSize (offset + chunkSize) (patches @ shifted))
      else patches)"
  by pat_completeness auto
termination
  by (relation "measure (\<lambda>(oldData, newData, chunkSize, offset, patches).
                  length newData - offset)") auto

declare streamLoop.simps [simp del]

text \<open>\<^verbatim>\<open>streamingDiff\<close>: the chunk size is a quarter of the memory limit in bytes
  (64 KiB when that is not positive), then the window loop and \<^verbatim>\<open>optimizePatches\<close>.\<close>

definition streamingDiff :: "Config \<Rightarrow> byte list \<Rightarrow> byte list \<Rightarrow> Patch list" where
  "streamingDiff cfg oldData newData =
     (let chunkSize0 = go_div (sint (MaxMemoryMB cfg * 1024 * 1024)) 4;
          chunkSize = (if chunkSize0 \<le> 0 then 64 * 1024 else chunkSize0)
      in optimizePatches (streamLoop oldData newData (nat chunkSize) 0 []))"

text \<open>\<^verbatim>\<open>parallelDiff\<close> falls back to the sequential differ on every path.\<close>

definition parallelDiff :: "Config \<Rightarrow> byte list \<Rightarrow> byte list \<Rightarrow> Patch list" where
  "parallelDiff cfg oldData newData =
     (if sint (MaxWorkers cfg) \<le> 1 then sequentialDiff oldData newData
      else if go_div (int (length newData)) (sint (MaxWorkers cfg)) < sint (BlockSize cfg)
      then sequentialDiff oldData newData
      else sequentialDiff oldData newData)"

text \<open>\<^verbatim>\<open>DiffWithOptions\<close> with the configuration of its options: streaming when the
  two sizes together exceed the memory limit, else the parallel or the sequential
  differ.\<close>

definition DiffWithOptions :: "Config \<Rightarrow> byte list \<Rightarrow> byte list \<Rightarrow> Patch list" where
  "DiffWithOptions cfg oldData newData =
     (let totalSize = int (length oldData + length newData);
          maxMemory = sint (MaxMemoryMB cfg * 1024 * 1024)
      in if totalSize > maxMemory then streamingDiff cfg oldData newData
         else if UseParallel cfg \<and> int (length oldData) > sint (BlockSize cfg * 10)
         then parallelDiff cfg oldData newData
         else sequentialDiff oldData newData)"

section \<open>The apply command (runApply)\<close>

text \<open>\<^verbatim>\<open>utils.CompareHashes\<close>: equal lengths and equal bytes at every index.\<close>

definition CompareHashes :: "byte list \<Rightarrow> byte list \<Rightarrow> bool" where
  "CompareHashes hash1 hash2 \<longleftrightarrow>
     (if length hash1 \<noteq> length hash2 then False
      else list_all (\<lambda>i. hash1 ! i = hash2 ! i) [0..<length hash1])"

text \<open>The errors \<^verbatim>\<open>runApply\<close> returns once both files are read: the decoder's error,
  the mismatch of the input hash, and the mismatch of the result hash.\<close>

datatype apply_error = DecodeFailed error | HashMismatch | ResultHashMismatch

text \<open>\<^verbatim>\<open>runApply\<close> from step 4 on, with the contents of the two files as inputs and
  no timeout. \<open>ComputeHash\<close> stands for \<^verbatim>\<open>utils.ComputeHash\<close>, the SHA-256 of the
  standard library, and is a parameter. The result is a panic, or an error, or the bytes
  written to the output file.\<close>

definition runApply ::
  "(byte list \<Rightarrow> byte list) \<Rightarrow> byte list \<Rightarrow> byte list \<Rightarrow> bool
     \<Rightarrow> panic + (apply_error + byte list)" where
  "runApply ComputeHash oldData patchBytes verifyResult =
     (case DecodeDiffFile patchBytes of
        Inl pn \<Rightarrow> Inl pn
      | Inr (df, Some err) \<Rightarrow> Inr (Inl (DecodeFailed err))
      | Inr (df, None) \<Rightarrow>
          if \<not> CompareHashes (ComputeHash oldData) (OldHash df)
          then Inr (Inl HashMismatch)
          else
            (case ApplyPatchWithOptions oldData (Diff df) of
               Inl pn \<Rightarrow> Inl pn
             | Inr newData \<Rightarrow>
                 if verifyResult \<and> \<not> CompareHashes (ComputeHash newData) (NewHash df)
                 then Inr (Inl ResultHashMismatch)
                 else Inr (Inr newData)))"

section \<open>Predicates and inputs of the statements\<close>

text \<open>Two adjacent operations that \<^verbatim>\<open>OptimizePatches\<close> would merge, and lists
  without such a pair.\<close>

definition mergeable :: "Patch \<Rightarrow> Patch \<Rightarrow> bool" where
  "mergeable a b \<longleftrightarrow>
     (Op a = OP_INSERT \<and> Op b = OP_INSERT \<and> Offset a + Length a = Offset b) \<or>
     (Op a = OP_COPY \<and> Op b = OP_COPY \<and> Offset a + Length a = Offset b)"

fun nomerge :: "Patch list \<Rightarrow> bool" where
  "nomerge [] = True"
| "nomerge [a] = True"
| "nomerge (a # b # ps) = (\<not> mergeable a b \<and> nomerge (b # ps))"

text \<open>A list of operations is strictly increasing in offset when the offsets, read as
  signed 64-bit integers, grow from each operation to every later one.\<close>

definition strictlyIncreasing :: "Patch list \<Rightarrow> bool" where
  "strictlyIncreasing ps \<longleftrightarrow> sorted_wrt (\<lambda>a b. sint (Offset a) < sint (Offset b)) ps"

text \<open>An operation is well formed when its data is what the codec writes and reads
  back: for INSERT and REPLACE a non-negative length and that many data bytes, for the
  other kinds no data.\<close>

definition wfPatch :: "Patch \<Rightarrow> bool" where
  "wfPatch p \<longleftrightarrow>
     (if Op p = OP_INSERT \<or> Op p = OP_REPLACE
      then 0 \<le> sint (Length p) \<and> int (length (Data p)) = sint (Length p)
      else Data p = [])"

text \<open>A header is well formed when its length fields are the lengths of the names
  and the two hashes have 32 bytes, as \<^verbatim>\<open>runDiff\<close> builds it.\<close>

definition wfHeader :: "DiffFile \<Rightarrow> bool" where
  "wfHeader df \<longleftrightarrow>
     unat (OldFileNameLength df) = length (FileName df) \<and>
     unat (NewFileNameLength df) = length (NewFileName df) \<and>
     length (OldHash df) = 32 \<and> length (NewHash df) = 32"

text \<open>The configuration of the repository's \<^verbatim>\<open>TestStreamingDiff\<close>; the fields it
  leaves out have Go's zero values.\<close>

definition streamingTestConfig :: Config where
  "streamingTestConfig =
     \<lparr>BlockSize = 1024, MinMatchLength = 64, MaxMemoryMB = 1, MaxWorkers = 0,
      UseParallel = False\<rparr>"

text \<open>A small patch container, and the container of the diff from the empty file to
  4 GiB of zero bytes.\<close>

definition exampleFile :: DiffFile where
  "exampleFile =
     \<lparr>MagicNumber = PATCH_MAGIC, Version = PATCH_VERSION,
      OldFileNameLength = 1, FileName = [0x61],
      NewFileNameLength = 2, NewFileName = [0x62, 0x63],
      OldSize = 3, NewSize = 4,
      OldHash = replicate 32 1, NewHash = replicate 32 2,
      AlignOffset = 0, DataLength = 0,
      Diff = sequentialDiff [1, 2, 3] [1, 9, 3, 4]\<rparr>"

definition hugeFile :: DiffFile where
  "hugeFile =
     \<lparr>MagicNumber = PATCH_MAGIC, Version = PATCH_VERSION,
      OldFileNameLength = 0, FileName = [],
      NewFileNameLength = 0, NewFileName = [],
      OldSize = 0, NewSize = 0,
      OldHash = replicate 32 0, NewHash = replicate 32 0,
      AlignOffset = 0, DataLength = 0,
      Diff = sequentialDiff [] (replicate 4294967296 0)\<rparr>"

section \<open>Properties of the optimizer\<close>

lemma mergeRun_Op: "Op (fst (mergeRun c ps)) = Op c"
  by (induction ps arbitrary: c) auto

lemma mergeRun_Offset: "Offset (fst (mergeRun c ps)) = Offset c"
  by (induction ps arbitrary: c) auto

lemma mergeRun_stops:
  "mergeRun c ps = (current, r # rs) \<Longrightarrow> \<not> mergeable current r"
  by (induction ps arbitrary: c) (auto simp: mergeable_def split: if_splits)

lemma mergeRun_not_mergeable:
  "\<not> mergeable c q \<Longrightarrow> mergeRun c (q # qs) = (c, q # qs)"
  by (auto simp: mergeable_def)

lemma optimizeLoop_fixed: "nomerge ps \<Longrightarrow> optimizeLoop ps = ps"
proof (induction ps rule: nomerge.induct)
  case 1
  show ?case by simp
next
  case (2 a)
  show ?case by simp
next
  case (3 a b ps)
  then have nm: "\<not> mergeable a b" and rest: "optimizeLoop (b # ps) = b # ps" by simp_all
  have "mergeRun a (b # ps) = (a, b # ps)" using nm by (rule mergeRun_not_mergeable)
  then show ?case using rest by simp
qed

lemma mergeable_cong:
  "Op b = Op b' \<Longrightarrow> Offset b = Offset b' \<Longrightarrow> mergeable a b = mergeable a b'"
  by (simp add: mergeable_def)

lemma optimizeLoop_hd:
  "optimizeLoop (r # rs) = fst (mergeRun r rs) # optimizeLoop (snd (mergeRun r rs))"
  by (simp add: case_prod_unfold)

lemma nomerge_Cons:
  "nomerge (a # ps) \<longleftrightarrow> (case ps of [] \<Rightarrow> True | b # _ \<Rightarrow> \<not> mergeable a b \<and> nomerge ps)"
  by (cases ps) simp_all

lemma optimizeLoop_nomerge: "nomerge (optimizeLoop ps)"
proof (induction ps rule: optimizeLoop.induct)
  case 1
  show ?case by simp
next
  case (2 p ps)
  obtain current rest where mr: "mergeRun p ps = (current, rest)" by (cases "mergeRun p ps")
  have ih: "nomerge (optimizeLoop rest)" using "2.IH" mr by simp
  show ?case
  proof (cases rest)
    case Nil
    then show ?thesis using mr by simp
  next
    case (Cons r rs)
    have stop: "\<not> mergeable current r" using mr Cons by (auto dest: mergeRun_stops)
    have "mergeable current (fst (mergeRun r rs)) = mergeable current r"
      by (rule mergeable_cong) (simp_all add: mergeRun_Op mergeRun_Offset)
    then have "\<not> mergeable current (fst (mergeRun r rs))" using stop by simp
    moreover have "nomerge (optimizeLoop (r # rs))" using ih Cons by simp
    ultimately have "nomerge (current # optimizeLoop (r # rs))"
      by (simp add: optimizeLoop_hd del: optimizeLoop.simps)
    then show ?thesis using mr Cons by simp
  qed
qed

lemma OptimizePatches_loop: "OptimizePatches ps = optimizeLoop ps"
proof (cases ps)
  case Nil
  then show ?thesis by (simp add: OptimizePatches_def)
next
  case (Cons a as)
  then show ?thesis by (cases as) (simp_all add: OptimizePatches_def)
qed

text \<open>Claim C5. The optimizer is idempotent: running \<^verbatim>\<open>OptimizePatches\<close> on its own
  output returns that output unchanged, for every operation list.\<close>

theorem OptimizePatches_idempotent:
  "OptimizePatches (OptimizePatches ops) = OptimizePatches ops"
  by (simp add: OptimizePatches_loop optimizeLoop_fixed optimizeLoop_nomerge)

section \<open>Properties of the reference differ and the applier\<close>

lemma sint_of_nat64: "n < 2 ^ 63 \<Longrightarrow> sint (of_nat n :: 64 word) = int n"
proof -
  assume n: "n < 2 ^ 63"
  have "sint (of_nat n :: 64 word) = sint (word_of_int (int n) :: 64 word)" by simp
  also have "\<dots> = signed_take_bit 63 (int n)" by (simp only: sint_sbintrunc') simp
  also have "\<dots> = int n"
  proof (rule signed_take_bit_int_eq_self)
    show "- (2 ^ 63) \<le> int n" by (rule order_trans [of _ 0]) simp_all
    have "int n < int (2 ^ 63)" using n by (simp only: of_nat_less_iff)
    then show "int n < 2 ^ 63" by simp
  qed
  finally show ?thesis .
qed

lemma scanEqual_le: "i \<le> minLen \<Longrightarrow> scanEqual oldData newData minLen i \<le> minLen"
proof (induction oldData newData minLen i rule: scanEqual.induct)
  case (1 oldData newData minLen i)
  show ?case
  proof (cases "i < minLen \<and> oldData ! i = newData ! i")
    case True
    then have "scanEqual oldData newData minLen (i + 1) \<le> minLen" using 1 by simp
    then show ?thesis using True by (subst scanEqual.simps) simp
  next
    case False
    then show ?thesis using "1.prems" by (subst scanEqual.simps) auto
  qed
qed

lemma scanDiffer_le: "i \<le> minLen \<Longrightarrow> scanDiffer oldData newData minLen i \<le> minLen"
proof (induction oldData newData minLen i rule: scanDiffer.induct)
  case (1 oldData newData minLen i)
  show ?case
  proof (cases "i < minLen \<and> oldData ! i \<noteq> newData ! i")
    case True
    then have "scanDiffer oldData newData minLen (i + 1) \<le> minLen" using 1 by simp
    then show ?thesis using True by (subst scanDiffer.simps) simp
  next
    case False
    then show ?thesis using "1.prems" by (subst scanDiffer.simps) auto
  qed
qed

lemma scanEqual_agree:
  "i \<le> k \<Longrightarrow> k < scanEqual oldData newData minLen i \<Longrightarrow> oldData ! k = newData ! k"
proof (induction oldData newData minLen i rule: scanEqual.induct)
  case (1 oldData newData minLen i)
  show ?case
  proof (cases "i < minLen \<and> oldData ! i = newData ! i")
    case True
    then have eq: "scanEqual oldData newData minLen i = scanEqual oldData newData minLen (i + 1)"
      by (subst scanEqual.simps) simp
    show ?thesis
    proof (cases "k = i")
      case True
      then show ?thesis using \<open>i < minLen \<and> oldData ! i = newData ! i\<close> by simp
    next
      case False
      then have "i + 1 \<le> k" using "1.prems" by simp
      then show ?thesis using 1 True eq by simp
    qed
  next
    case False
    then have "scanEqual oldData newData minLen i = i" by (subst scanEqual.simps) auto
    then show ?thesis using "1.prems" by simp
  qed
qed

lemma scanEqual_segment:
  assumes "scanEqual oldData newData minLen i = j" "j \<le> length oldData" "j \<le> length newData"
  shows "take (j - i) (drop i oldData) = take (j - i) (drop i newData)"
proof (rule nth_equalityI)
  show "length (take (j - i) (drop i oldData)) = length (take (j - i) (drop i newData))"
    using assms by simp
next
  fix k assume "k < length (take (j - i) (drop i oldData))"
  then have k: "k < j - i" by simp
  then have "oldData ! (i + k) = newData ! (i + k)"
    using assms(1) scanEqual_agree [of i "i + k" oldData newData minLen] by simp
  then show "take (j - i) (drop i oldData) ! k = take (j - i) (drop i newData) ! k"
    using k assms by simp
qed

lemma applyLoop_append:
  "applyLoop oldData (xs @ ys) st =
     (case applyLoop oldData xs st of Inl e \<Rightarrow> Inl e | Inr st' \<Rightarrow> applyLoop oldData ys st')"
  by (induction xs arbitrary: st) (auto split: sum.splits)

lemma diffLoop_acc:
  "diffLoop oldData newData minLen i acc = acc @ diffLoop oldData newData minLen i []"
proof (induction "minLen - i" arbitrary: i acc rule: less_induct)
  case less
  show ?case
  proof (cases "i < minLen")
    case False
    then show ?thesis by (simp add: diffLoop.simps)
  next
    case lt: True
    show ?thesis
    proof (cases "oldData ! i = newData ! i")
      case True
      define j where "j = scanEqual oldData newData minLen i"
      have "i < j" unfolding j_def using lt True by (rule scanEqual_gt)
      then have dec: "minLen - j < minLen - i" using lt by simp
      show ?thesis
        using less [OF dec, of "acc @ [\<lparr>Op = OP_COPY, Offset = of_nat i, Length = of_nat (j - i), Data = []\<rparr>]"]
              less [OF dec, of "[\<lparr>Op = OP_COPY, Offset = of_nat i, Length = of_nat (j - i), Data = []\<rparr>]"]
        using lt True
        by (simp add: diffLoop.simps [of oldData newData minLen i] j_def Let_def)
    next
      case False
      define j where "j = scanDiffer oldData newData minLen i"
      have "i < j" unfolding j_def using lt False by (rule scanDiffer_gt)
      then have dec: "minLen - j < minLen - i" using lt by simp
      show ?thesis
        using less [OF dec, of "acc @ [\<lparr>Op = OP_REPLACE, Offset = of_nat i, Length = of_nat (j - i), Data = take (j - i) (drop i newData)\<rparr>]"]
              less [OF dec, of "[\<lparr>Op = OP_REPLACE, Offset = of_nat i, Length = of_nat (j - i), Data = take (j - i) (drop i newData)\<rparr>]"]
        using lt False
        by (simp add: diffLoop.simps [of oldData newData minLen i] j_def Let_def)
    qed
  qed
qed

text \<open>Unfolding equations of the differ's main loop, one per branch.\<close>

lemma diffLoop_done: "\<not> i < minLen \<Longrightarrow> diffLoop oldData newData minLen i [] = []"
  by (simp add: diffLoop.simps)

lemma diffLoop_copy:
  "i < minLen \<Longrightarrow> oldData ! i = newData ! i \<Longrightarrow>
   diffLoop oldData newData minLen i [] =
     \<lparr>Op = OP_COPY, Offset = of_nat i,
      Length = of_nat (scanEqual oldData newData minLen i - i), Data = []\<rparr>
     # diffLoop oldData newData minLen (scanEqual oldData newData minLen i) []"
  by (subst diffLoop.simps, subst diffLoop_acc) (simp add: Let_def)

lemma diffLoop_replace:
  "i < minLen \<Longrightarrow> oldData ! i \<noteq> newData ! i \<Longrightarrow>
   diffLoop oldData newData minLen i [] =
     \<lparr>Op = OP_REPLACE, Offset = of_nat i,
      Length = of_nat (scanDiffer oldData newData minLen i - i),
      Data = take (scanDiffer oldData newData minLen i - i) (drop i newData)\<rparr>
     # diffLoop oldData newData minLen (scanDiffer oldData newData minLen i) []"
  by (subst diffLoop.simps, subst diffLoop_acc) (simp add: Let_def)

lemma take_drop_chain:
  "i \<le> j \<Longrightarrow> j \<le> m \<Longrightarrow>
   take (j - i) (drop i xs) @ take (m - j) (drop j xs) = take (m - i) (drop i xs)"
proof -
  assume a: "i \<le> j" "j \<le> m"
  have "take ((j - i) + (m - j)) (drop i xs)
        = take (j - i) (drop i xs) @ take (m - j) (drop (j - i) (drop i xs))"
    by (rule take_add)
  then show ?thesis using a by simp
qed

lemma applyOp_copy_run:
  assumes "i < j" "j \<le> length oldData" "length oldData < 2 ^ 63"
  shows "applyOp oldData \<lparr>Op = OP_COPY, Offset = of_nat i, Length = of_nat (j - i), Data = []\<rparr>
           (of_nat i, out) = Inr (of_nat j, out @ take (j - i) (drop i oldData))"
proof -
  have i: "sint (of_nat i :: 64 word) = int i" using assms by (simp add: sint_of_nat64)
  have j: "sint (of_nat j :: 64 word) = int j" using assms by (simp add: sint_of_nat64)
  have e: "(of_nat i :: 64 word) + of_nat (j - i) = of_nat j"
    using assms by (simp flip: of_nat_add)
  show ?thesis using assms
    by (simp add: applyOp_def i j e OP_defs slice_def Let_def)
qed

lemma applyOp_replace_run:
  assumes "i < j" "j \<le> length oldData" "length oldData < 2 ^ 63"
  shows "applyOp oldData \<lparr>Op = OP_REPLACE, Offset = of_nat i, Length = of_nat (j - i), Data = d\<rparr>
           (of_nat i, out) = Inr (of_nat j, out @ d)"
proof -
  have i: "sint (of_nat i :: 64 word) = int i" using assms by (simp add: sint_of_nat64)
  have e: "(of_nat i :: 64 word) + of_nat (j - i) = of_nat j"
    using assms by (simp flip: of_nat_add)
  show ?thesis using assms
    by (simp add: applyOp_def i e OP_defs)
qed

lemma applyLoop_diffLoop:
  assumes "minLen \<le> length oldData" "minLen \<le> length newData" "length oldData < 2 ^ 63"
  shows "i \<le> minLen \<Longrightarrow>
         applyLoop oldData (diffLoop oldData newData minLen i []) (of_nat i, out)
           = Inr (of_nat minLen, out @ take (minLen - i) (drop i newData))"
proof (induction "minLen - i" arbitrary: i out rule: less_induct)
  case less
  show ?case
  proof (cases "i < minLen")
    case False
    then have "i = minLen" using less.prems by simp
    then show ?thesis by (simp add: diffLoop_done)
  next
    case lt: True
    show ?thesis
    proof (cases "oldData ! i = newData ! i")
      case True
      define j where "j = scanEqual oldData newData minLen i"
      have ij: "i < j" unfolding j_def using lt True by (rule scanEqual_gt)
      have jm: "j \<le> minLen" unfolding j_def using less.prems by (rule scanEqual_le)
      have dec: "minLen - j < minLen - i" using ij lt by simp
      have seg: "take (j - i) (drop i oldData) = take (j - i) (drop i newData)"
        using assms jm by (intro scanEqual_segment [of _ _ minLen]) (simp_all add: j_def)
      have step: "applyOp oldData \<lparr>Op = OP_COPY, Offset = of_nat i, Length = of_nat (j - i), Data = []\<rparr>
           (of_nat i, out) = Inr (of_nat j, out @ take (j - i) (drop i newData))"
        using applyOp_copy_run [OF ij, of oldData out] assms jm seg by simp
      have "applyLoop oldData (diffLoop oldData newData minLen i []) (of_nat i, out)
            = applyLoop oldData (diffLoop oldData newData minLen j [])
                (of_nat j, out @ take (j - i) (drop i newData))"
        using step by (simp add: diffLoop_copy [OF lt True] j_def)
      also have "\<dots> = Inr (of_nat minLen,
                    (out @ take (j - i) (drop i newData)) @ take (minLen - j) (drop j newData))"
        using less.hyps [OF dec jm] .
      finally show ?thesis using take_drop_chain [of i j minLen newData] ij jm by simp
    next
      case False
      define j where "j = scanDiffer oldData newData minLen i"
      have ij: "i < j" unfolding j_def using lt False by (rule scanDiffer_gt)
      have jm: "j \<le> minLen" unfolding j_def using less.prems by (rule scanDiffer_le)
      have dec: "minLen - j < minLen - i" using ij lt by simp
      have step: "applyOp oldData \<lparr>Op = OP_REPLACE, Offset = of_nat i, Length = of_nat (j - i),
                     Data = take (j - i) (drop i newData)\<rparr>
           (of_nat i, out) = Inr (of_nat j, out @ take (j - i) (drop i newData))"
        using applyOp_replace_run [OF ij, of oldData] assms jm by simp
      have "applyLoop oldData (diffLoop oldData newData minLen i []) (of_nat i, out)
            = applyLoop oldData (diffLoop oldData newData minLen j [])
                (of_nat j, out @ take (j - i) (drop i newData))"
        using step by (simp add: diffLoop_replace [OF lt False] j_def)
      also have "\<dots> = Inr (of_nat minLen,
                    (out @ take (j - i) (drop i newData)) @ take (minLen - j) (drop j newData))"
        using less.hyps [OF dec jm] .
      finally show ?thesis using take_drop_chain [of i j minLen newData] ij jm by simp
    qed
  qed
qed

lemma fold_estimateStep:
  "fold estimateStep ps a = a + fold estimateStep ps 0"
proof (induction ps arbitrary: a)
  case Nil
  show ?case by simp
next
  case (Cons p ps)
  have "fold estimateStep (p # ps) a = estimateStep p a + fold estimateStep ps 0"
    using Cons.IH [of "estimateStep p a"] by simp
  moreover have "fold estimateStep (p # ps) 0 = estimateStep p 0 + fold estimateStep ps 0"
    using Cons.IH [of "estimateStep p 0"] by simp
  moreover have "estimateStep p a = a + estimateStep p 0"
    by (simp add: estimateStep_def)
  ultimately show ?case by (simp only: add.assoc)
qed

lemma estimatedSize_Nil: "estimatedSize [] = 0"
  by (simp add: estimatedSize_def)

lemma estimatedSize_Cons:
  "estimatedSize (p # ps) =
     (if Op p = OP_INSERT \<or> Op p = OP_REPLACE \<or> Op p = OP_COPY \<or> Op p = OP_MATCH
      then Length p else 0) + estimatedSize ps"
proof -
  have "estimatedSize (p # ps) = fold estimateStep ps (estimateStep p 0)"
    by (simp add: estimatedSize_def)
  also have "\<dots> = estimateStep p 0 + fold estimateStep ps 0"
    by (rule fold_estimateStep)
  finally show ?thesis by (simp add: estimatedSize_def estimateStep_def)
qed

lemma estimatedSize_append:
  "estimatedSize (xs @ ys) = estimatedSize xs + estimatedSize ys"
  by (induction xs) (simp_all add: estimatedSize_Nil estimatedSize_Cons add.assoc)

lemma estimatedSize_diffLoop:
  "i \<le> minLen \<Longrightarrow>
   estimatedSize (diffLoop oldData newData minLen i []) = of_nat (minLen - i)"
proof (induction "minLen - i" arbitrary: i rule: less_induct)
  case less
  show ?case
  proof (cases "i < minLen")
    case False
    then show ?thesis using less.prems by (simp add: diffLoop_done estimatedSize_Nil)
  next
    case lt: True
    show ?thesis
    proof (cases "oldData ! i = newData ! i")
      case True
      define j where "j = scanEqual oldData newData minLen i"
      have ij: "i < j" unfolding j_def using lt True by (rule scanEqual_gt)
      have jm: "j \<le> minLen" unfolding j_def using less.prems by (rule scanEqual_le)
      have dec: "minLen - j < minLen - i" using ij lt by simp
      have "estimatedSize (diffLoop oldData newData minLen i [])
            = (of_nat (j - i) :: 64 word) + of_nat (minLen - j)"
        using less.hyps [OF dec jm]
        by (simp add: diffLoop_copy [OF lt True] estimatedSize_Cons j_def OP_defs)
      also have "\<dots> = of_nat ((j - i) + (minLen - j))" by (simp only: of_nat_add)
      finally show ?thesis using ij jm by simp
    next
      case False
      define j where "j = scanDiffer oldData newData minLen i"
      have ij: "i < j" unfolding j_def using lt False by (rule scanDiffer_gt)
      have jm: "j \<le> minLen" unfolding j_def using less.prems by (rule scanDiffer_le)
      have dec: "minLen - j < minLen - i" using ij lt by simp
      have "estimatedSize (diffLoop oldData newData minLen i [])
            = (of_nat (j - i) :: 64 word) + of_nat (minLen - j)"
        using less.hyps [OF dec jm]
        by (simp add: diffLoop_replace [OF lt False] estimatedSize_Cons j_def OP_defs)
      also have "\<dots> = of_nat ((j - i) + (minLen - j))" by (simp only: of_nat_add)
      finally show ?thesis using ij jm by simp
    qed
  qed
qed

lemma sequentialDiff_insert:
  "length oldData < length newData \<Longrightarrow>
   sequentialDiff oldData newData =
     diffLoop oldData newData (length oldData) 0 [] @
       [\<lparr>Op = OP_INSERT, Offset = of_nat (length oldData),
         Length = of_nat (length newData - length oldData),
         Data = drop (length oldData) newData\<rparr>]"
  by (simp add: sequentialDiff_def Let_def)

lemma sequentialDiff_delete:
  "length newData < length oldData \<Longrightarrow>
   sequentialDiff oldData newData =
     diffLoop oldData newData (length newData) 0 [] @
       [\<lparr>Op = OP_DELETE, Offset = of_nat (length newData),
         Length = of_nat (length oldData - length newData), Data = []\<rparr>]"
  by (simp add: sequentialDiff_def Let_def)

lemma sequentialDiff_same:
  "length newData = length oldData \<Longrightarrow>
   sequentialDiff oldData newData = diffLoop oldData newData (length oldData) 0 []"
  by (simp add: sequentialDiff_def Let_def)

lemma estimatedSize_sequentialDiff:
  "estimatedSize (sequentialDiff oldData newData) = of_nat (length newData)"
proof -
  consider (ins) "length oldData < length newData" | (del) "length newData < length oldData"
    | (same) "length newData = length oldData" by linarith
  then show ?thesis
  proof cases
    case ins
    have "(of_nat (length oldData) :: 64 word) + of_nat (length newData - length oldData)
          = of_nat (length oldData + (length newData - length oldData))"
      by (simp only: of_nat_add)
    also have "\<dots> = of_nat (length newData)" using ins by simp
    finally show ?thesis
      by (simp add: sequentialDiff_insert [OF ins] estimatedSize_append estimatedSize_Cons
            estimatedSize_Nil estimatedSize_diffLoop OP_defs del: of_nat_diff)
  next
    case del
    show ?thesis
      by (simp add: sequentialDiff_delete [OF del] estimatedSize_append estimatedSize_Cons
            estimatedSize_Nil estimatedSize_diffLoop OP_defs del: of_nat_diff)
  next
    case same
    show ?thesis
      by (simp add: sequentialDiff_same [OF same] estimatedSize_diffLoop same)
  qed
qed

lemma applyOp_tail_insert:
  assumes "n = length oldData" "n < 2 ^ 63"
  shows "applyOp oldData \<lparr>Op = OP_INSERT, Offset = of_nat n, Length = l, Data = d\<rparr>
           (of_nat n, out) = Inr (of_nat n, out @ d)"
  using assms by (simp add: applyOp_def sint_of_nat64 OP_defs)

lemma applyOp_tail_delete:
  assumes "n \<le> length oldData" "length oldData < 2 ^ 63"
  shows "applyOp oldData \<lparr>Op = OP_DELETE, Offset = of_nat n,
                           Length = of_nat (length oldData - n), Data = d\<rparr>
           (of_nat n, out) = Inr (of_nat (length oldData), out)"
proof -
  have n: "sint (of_nat n :: 64 word) = int n" using assms by (simp add: sint_of_nat64)
  have e: "(of_nat n :: 64 word) + of_nat (length oldData - n) = of_nat (length oldData)"
    using assms by (simp flip: of_nat_add)
  show ?thesis using assms(1) by (simp add: applyOp_def n e OP_defs del: of_nat_diff)
qed

lemma applyLoop_sequentialDiff:
  assumes "length oldData < 2 ^ 63" "length newData < 2 ^ 63"
  shows "applyLoop oldData (sequentialDiff oldData newData) (0, [])
           = Inr (of_nat (length oldData), newData)"
proof -
  consider (ins) "length oldData < length newData" | (del) "length newData < length oldData"
    | (same) "length newData = length oldData" by linarith
  then show ?thesis
  proof cases
    case ins
    have body: "applyLoop oldData (diffLoop oldData newData (length oldData) 0 []) (0, [])
                = Inr (of_nat (length oldData), take (length oldData) newData)"
      using applyLoop_diffLoop [of "length oldData" oldData newData 0 "[]"] ins assms by simp
    show ?thesis
      using assms(1)
      by (simp only: sequentialDiff_insert [OF ins] applyLoop_append body sum.case
            applyLoop.simps applyOp_tail_insert [OF refl assms(1)] append_take_drop_id)
  next
    case del
    have body: "applyLoop oldData (diffLoop oldData newData (length newData) 0 []) (0, [])
                = Inr (of_nat (length newData), newData)"
      using applyLoop_diffLoop [of "length newData" oldData newData 0 "[]"] del assms by simp
    have le: "length newData \<le> length oldData" using del by simp
    show ?thesis
      by (simp only: sequentialDiff_delete [OF del] applyLoop_append body sum.case
            applyLoop.simps applyOp_tail_delete [OF le assms(1)])
  next
    case same
    show ?thesis
      using applyLoop_diffLoop [of "length oldData" oldData newData 0 "[]"] same assms
      by (simp add: sequentialDiff_same [OF same])
  qed
qed

lemma apply_sequentialDiff:
  assumes "length oldData < 2 ^ 63" "length newData < 2 ^ 63"
  shows "ApplyPatchWithOptions oldData (sequentialDiff oldData newData) = Inr newData"
proof -
  have est: "\<not> sint (estimatedSize (sequentialDiff oldData newData)) < 0"
    using assms by (simp add: estimatedSize_sequentialDiff sint_of_nat64)
  show ?thesis
    using est assms(1)
    by (simp add: ApplyPatchWithOptions_def applyLoop_sequentialDiff [OF assms] sint_of_nat64)
qed

section \<open>Order of the offsets\<close>

lemma mergeRun_rest_set: "set (snd (mergeRun c ps)) \<subseteq> set ps"
  by (induction ps arbitrary: c) auto

lemma mergeRun_rest_sorted:
  "sorted_wrt P ps \<Longrightarrow> sorted_wrt P (snd (mergeRun c ps))"
  by (induction ps arbitrary: c) auto

lemma optimizeLoop_offsets: "Offset ` set (optimizeLoop ps) \<subseteq> Offset ` set ps"
proof (induction ps rule: optimizeLoop.induct)
  case 1
  show ?case by simp
next
  case (2 p ps)
  obtain current rest where mr: "mergeRun p ps = (current, rest)" by (cases "mergeRun p ps")
  have cur: "Offset current = Offset p" using mergeRun_Offset [of p ps] mr by simp
  have "set rest \<subseteq> set ps" using mergeRun_rest_set [of p ps] mr by simp
  moreover have "Offset ` set (optimizeLoop rest) \<subseteq> Offset ` set rest"
    using "2.IH" mr by simp
  ultimately show ?case using mr cur by auto
qed

lemma optimizeLoop_increasing:
  "strictlyIncreasing ps \<Longrightarrow> strictlyIncreasing (optimizeLoop ps)"
proof (induction ps rule: optimizeLoop.induct)
  case 1
  show ?case by (simp add: strictlyIncreasing_def)
next
  case (2 p ps)
  obtain current rest where mr: "mergeRun p ps = (current, rest)" by (cases "mergeRun p ps")
  have cur: "Offset current = Offset p" using mergeRun_Offset [of p ps] mr by simp
  have sub: "set rest \<subseteq> set ps" using mergeRun_rest_set [of p ps] mr by simp
  have srt: "strictlyIncreasing rest"
    using "2.prems" mergeRun_rest_sorted [of _ ps p] mr by (simp add: strictlyIncreasing_def)
  have ih: "strictlyIncreasing (optimizeLoop rest)" using "2.IH" mr srt by simp
  have above: "\<forall>q \<in> set ps. sint (Offset p) < sint (Offset q)"
    using "2.prems" by (simp add: strictlyIncreasing_def)
  have "\<forall>q \<in> set (optimizeLoop rest). sint (Offset current) < sint (Offset q)"
  proof
    fix q assume "q \<in> set (optimizeLoop rest)"
    then have "Offset q \<in> Offset ` set rest" using optimizeLoop_offsets [of rest] by auto
    then obtain q' where "q' \<in> set rest" "Offset q = Offset q'" by auto
    then show "sint (Offset current) < sint (Offset q)" using above sub cur by auto
  qed
  then show ?case using ih mr by (simp add: strictlyIncreasing_def)
qed

lemma diffLoop_offsets:
  assumes "minLen < 2 ^ 63"
  shows "i \<le> minLen \<Longrightarrow>
         strictlyIncreasing (diffLoop oldData newData minLen i []) \<and>
         (\<forall>p \<in> set (diffLoop oldData newData minLen i []).
            int i \<le> sint (Offset p) \<and> sint (Offset p) < int minLen)"
proof (induction "minLen - i" arbitrary: i rule: less_induct)
  case less
  show ?case
  proof (cases "i < minLen")
    case False
    then show ?thesis by (simp add: diffLoop_done strictlyIncreasing_def)
  next
    case lt: True
    have si: "sint (of_nat i :: 64 word) = int i" using lt assms by (simp add: sint_of_nat64)
    show ?thesis
    proof (cases "oldData ! i = newData ! i")
      case True
      define j where "j = scanEqual oldData newData minLen i"
      have ij: "i < j" unfolding j_def using lt True by (rule scanEqual_gt)
      have jm: "j \<le> minLen" unfolding j_def using less.prems by (rule scanEqual_le)
      have dec: "minLen - j < minLen - i" using ij lt by simp
      note ih = less.hyps [OF dec jm]
      show ?thesis using ih ij lt si
        by (auto simp: diffLoop_copy [OF lt True] strictlyIncreasing_def simp flip: j_def)
    next
      case False
      define j where "j = scanDiffer oldData newData minLen i"
      have ij: "i < j" unfolding j_def using lt False by (rule scanDiffer_gt)
      have jm: "j \<le> minLen" unfolding j_def using less.prems by (rule scanDiffer_le)
      have dec: "minLen - j < minLen - i" using ij lt by simp
      note ih = less.hyps [OF dec jm]
      show ?thesis using ih ij lt si
        by (auto simp: diffLoop_replace [OF lt False] strictlyIncreasing_def simp flip: j_def)
    qed
  qed
qed

lemma sequentialDiff_increasing:
  assumes "length oldData < 2 ^ 63" "length newData < 2 ^ 63"
  shows "strictlyIncreasing (sequentialDiff oldData newData)"
proof -
  consider (ins) "length oldData < length newData" | (del) "length newData < length oldData"
    | (same) "length newData = length oldData" by linarith
  then show ?thesis
  proof cases
    case ins
    show ?thesis
      using diffLoop_offsets [OF assms(1), of 0 oldData newData] assms(1)
      by (auto simp: sequentialDiff_insert [OF ins] strictlyIncreasing_def sorted_wrt_append
            sint_of_nat64)
  next
    case del
    show ?thesis
      using diffLoop_offsets [OF assms(2), of 0 oldData newData] assms(2)
      by (auto simp: sequentialDiff_delete [OF del] strictlyIncreasing_def sorted_wrt_append
            sint_of_nat64)
  next
    case same
    show ?thesis
      using diffLoop_offsets [OF assms(1), of 0 oldData newData]
      by (simp add: sequentialDiff_same [OF same])
  qed
qed

text \<open>Claim C6. For all \<open>oldData\<close> and \<open>newData\<close> (of a length a Go slice can have,
  below \<open>2 ^ 63\<close>) the operation list of the reference differ \<^verbatim>\<open>sequentialDiff\<close> is
  strictly increasing in offset, and so is its optimized form; and \<^verbatim>\<open>OptimizePatches\<close>
  keeps every strictly increasing operation list strictly increasing.\<close>

theorem offsets_strictly_increasing:
  "(length oldData < 2 ^ 63 \<and> length newData < 2 ^ 63 \<longrightarrow>
      strictlyIncreasing (sequentialDiff oldData newData) \<and>
      strictlyIncreasing (OptimizePatches (sequentialDiff oldData newData))) \<and>
   (strictlyIncreasing ops \<longrightarrow> strictlyIncreasing (OptimizePatches ops))"
  by (simp add: sequentialDiff_increasing OptimizePatches_loop optimizeLoop_increasing)

theorem offsets_strictly_increasing_witness:
  "strictlyIncreasing (sequentialDiff [1, 2, 3] [1, 9, 3, 4]) \<and>
   strictlyIncreasing (OptimizePatches (sequentialDiff [1, 2, 3] [1, 9, 3, 4])) \<and>
   strictlyIncreasing [\<lparr>Op = OP_COPY, Offset = 0, Length = 2, Data = []\<rparr>,
                       \<lparr>Op = OP_COPY, Offset = 2, Length = 3, Data = []\<rparr>,
                       \<lparr>Op = OP_DELETE, Offset = 5, Length = 1, Data = []\<rparr>] \<and>
   strictlyIncreasing (OptimizePatches
                      [\<lparr>Op = OP_COPY, Offset = 0, Length = 2, Data = []\<rparr>,
                       \<lparr>Op = OP_COPY, Offset = 2, Length = 3, Data = []\<rparr>,
                       \<lparr>Op = OP_DELETE, Offset = 5, Length = 1, Data = []\<rparr>]) \<and>
   OptimizePatches
                      [\<lparr>Op = OP_COPY, Offset = 0, Length = 2, Data = []\<rparr>,
                       \<lparr>Op = OP_COPY, Offset = 2, Length = 3, Data = []\<rparr>,
                       \<lparr>Op = OP_DELETE, Offset = 5, Length = 1, Data = []\<rparr>]
     = [\<lparr>Op = OP_COPY, Offset = 0, Length = 5, Data = []\<rparr>,
        \<lparr>Op = OP_DELETE, Offset = 5, Length = 1, Data = []\<rparr>]"
proof -
  have inc: "strictlyIncreasing [\<lparr>Op = OP_COPY, Offset = 0, Length = 2, Data = []\<rparr>,
                       \<lparr>Op = OP_COPY, Offset = 2, Length = 3, Data = []\<rparr>,
                       \<lparr>Op = OP_DELETE, Offset = 5, Length = 1, Data = []\<rparr>]"
    by (simp add: strictlyIncreasing_def)
  have len: "length [1, 2, 3 :: byte] < 2 ^ 63 \<and> length [1, 9, 3, 4 :: byte] < 2 ^ 63" by simp
  have opt: "OptimizePatches
                      [\<lparr>Op = OP_COPY, Offset = 0, Length = 2, Data = []\<rparr>,
                       \<lparr>Op = OP_COPY, Offset = 2, Length = 3, Data = []\<rparr>,
                       \<lparr>Op = OP_DELETE, Offset = 5, Length = 1, Data = []\<rparr>]
     = [\<lparr>Op = OP_COPY, Offset = 0, Length = 5, Data = []\<rparr>,
        \<lparr>Op = OP_DELETE, Offset = 5, Length = 1, Data = []\<rparr>]"
    by (simp add: OptimizePatches_def OP_defs)
  show ?thesis
    using offsets_strictly_increasing [of "[1, 2, 3]" "[1, 9, 3, 4]"
        "[\<lparr>Op = OP_COPY, Offset = 0, Length = 2, Data = []\<rparr>,
          \<lparr>Op = OP_COPY, Offset = 2, Length = 3, Data = []\<rparr>,
          \<lparr>Op = OP_DELETE, Offset = 5, Length = 1, Data = []\<rparr>]"] inc len opt
    by simp
qed

section \<open>The replay loop on malformed operation lists\<close>

lemma applyOp_skip:
  "int (length oldData) < sint (Offset p) \<Longrightarrow> applyOp oldData p st = Inr st"
  by (cases st) (simp add: applyOp_def)

lemma applyLoop_skip:
  "int (length oldData) < sint (Offset p) \<Longrightarrow>
   applyLoop oldData (xs @ p # ys) st = applyLoop oldData (xs @ ys) st"
  by (simp add: applyLoop_append applyOp_skip split: sum.splits)

text \<open>At the top level the skipped operation is harmless whenever the buffer can be
  pre-sized with and without it.\<close>

lemma ApplyPatch_skip_when_presized:
  assumes "int (length oldData) < sint (Offset p)"
    and "\<not> sint (estimatedSize (xs @ p # ys)) < 0" "\<not> sint (estimatedSize (xs @ ys)) < 0"
  shows "ApplyPatchWithOptions oldData (xs @ p # ys) = ApplyPatchWithOptions oldData (xs @ ys)"
  using assms(2,3) by (simp add: ApplyPatchWithOptions_def applyLoop_skip [OF assms(1)])

lemma sint_add_in_range:
  fixes a b :: "64 word"
  assumes "- (2 ^ 63) \<le> sint a + sint b" "sint a + sint b < 2 ^ 63"
  shows "sint (a + b) = sint a + sint b"
proof -
  have "sint (a + b) = signed_take_bit 63 (sint a + sint b)"
    by (simp add: sint_word_ariths)
  also have "\<dots> = sint a + sint b"
    using assms by (intro signed_take_bit_int_eq_self) simp_all
  finally show ?thesis .
qed

lemma slice_ok:
  "0 \<le> low \<Longrightarrow> low \<le> high \<Longrightarrow> high \<le> int (length s) \<Longrightarrow>
   slice s low high = Inr (take (nat high - nat low) (drop (nat low) s))"
  by (simp add: slice_def)

lemma applyOp_safe:
  assumes c0: "0 \<le> sint cursor" and cb: "sint cursor \<le> c"
    and l0: "0 \<le> sint (Length p)" and nb: "c + sint (Length p) < 2 ^ 63"
    and lc: "int (length oldData) \<le> c"
  shows "\<exists>cursor' out'. applyOp oldData p (cursor, out) = Inr (cursor', out') \<and>
           0 \<le> sint cursor' \<and> sint cursor' \<le> c + sint (Length p)"
proof (cases "int (length oldData) < sint (Offset p)")
  case True
  then show ?thesis using c0 cb l0 by (simp add: applyOp_def)
next
  case inrange: False
  define cur1 where "cur1 = (if sint cursor < sint (Offset p) then Offset p else cursor)"
  define out1 where "out1 = (if sint cursor < sint (Offset p)
     then out @ take (nat (sint (Offset p)) - nat (sint cursor)) (drop (nat (sint cursor)) oldData)
     else out)"
  have gap: "(if sint (Offset p) > sint cursor
               then (case slice oldData (sint cursor) (sint (Offset p)) of
                       Inl e \<Rightarrow> Inl e
                     | Inr gap \<Rightarrow> Inr (Offset p, out @ gap))
               else Inr (cursor, out)) = Inr (cur1, out1)"
    using c0 inrange by (simp add: cur1_def out1_def slice_def)
  have c1: "0 \<le> sint cur1" "sint cur1 \<le> c"
    using c0 cb inrange lc by (auto simp: cur1_def)
  have sum: "sint (cur1 + Length p) = sint cur1 + sint (Length p)"
    using c1 l0 nb by (intro sint_add_in_range) simp_all
  have len63: "length oldData < 2 ^ 63"
  proof -
    have "int (length oldData) < 2 ^ 63" using lc nb l0 by simp
    then have "int (length oldData) < int (2 ^ 63)" by simp
    then show ?thesis by (simp only: of_nat_less_iff)
  qed
  have slen: "sint (of_nat (length oldData) :: 64 word) = int (length oldData)"
    using len63 by (rule sint_of_nat64)
  show ?thesis
    using inrange c1 sum l0 slen lc
    by (auto simp: applyOp_def gap Let_def slice_def)
qed


lemma applyLoop_safe:
  assumes "list_all (\<lambda>p. 0 \<le> sint (Length p)) ps"
    and "0 \<le> sint cursor" "sint cursor \<le> c" "int (length oldData) \<le> c"
    and "c + sum_list (map (\<lambda>p. sint (Length p)) ps) < 2 ^ 63"
  shows "\<exists>cursor' out'. applyLoop oldData ps (cursor, out) = Inr (cursor', out') \<and>
           0 \<le> sint cursor'"
  using assms
proof (induction ps arbitrary: cursor out c)
  case Nil
  then show ?case by simp
next
  case (Cons p ps)
  have l0: "0 \<le> sint (Length p)" and rest: "list_all (\<lambda>p. 0 \<le> sint (Length p)) ps"
    using Cons.prems(1) by simp_all
  have tail0: "0 \<le> sum_list (map (\<lambda>p. sint (Length p)) ps)"
    using rest by (induction ps) simp_all
  have nb: "c + sint (Length p) < 2 ^ 63" using Cons.prems(5) tail0 by simp
  obtain cursor1 out1 where
    step: "applyOp oldData p (cursor, out) = Inr (cursor1, out1)"
    and c1: "0 \<le> sint cursor1" "sint cursor1 \<le> c + sint (Length p)"
    using applyOp_safe [OF Cons.prems(2,3) l0 nb Cons.prems(4), of out] by blast
  have "\<exists>cursor' out'. applyLoop oldData ps (cursor1, out1) = Inr (cursor', out') \<and>
           0 \<le> sint cursor'"
  proof (rule Cons.IH [OF rest c1])
    show "int (length oldData) \<le> c + sint (Length p)" using Cons.prems(4) l0 by simp
    show "c + sint (Length p) + sum_list (map (\<lambda>p. sint (Length p)) ps) < 2 ^ 63"
      using Cons.prems(5) by simp
  qed
  then show ?case using step by simp
qed

lemma estimatedSize_nonneg:
  assumes "list_all (\<lambda>p. 0 \<le> sint (Length p)) ps"
    and "sum_list (map (\<lambda>p. sint (Length p)) ps) < 2 ^ 63"
  shows "0 \<le> sint (estimatedSize ps) \<and>
         sint (estimatedSize ps) \<le> sum_list (map (\<lambda>p. sint (Length p)) ps)"
  using assms
proof (induction ps)
  case Nil
  show ?case by (simp add: estimatedSize_Nil)
next
  case (Cons p ps)
  have l0: "0 \<le> sint (Length p)" and rest: "list_all (\<lambda>p. 0 \<le> sint (Length p)) ps"
    using Cons.prems(1) by simp_all
  have ih: "0 \<le> sint (estimatedSize ps)"
    "sint (estimatedSize ps) \<le> sum_list (map (\<lambda>p. sint (Length p)) ps)"
    using Cons.IH [OF rest] Cons.prems(2) l0 by simp_all
  have sum: "sint (Length p + estimatedSize ps) = sint (Length p) + sint (estimatedSize ps)"
    using ih l0 Cons.prems(2) by (intro sint_add_in_range) simp_all
  show ?case using ih l0 sum by (simp add: estimatedSize_Cons)
qed

text \<open>Without overflow the replay is total: when every length is non-negative and
  \<open>|OLD|\<close> plus the sum of all lengths stays below \<open>2 ^ 63\<close>, the cursor never becomes
  negative, no slice is out of bounds and \<^verbatim>\<open>ApplyPatchWithOptions\<close> returns a byte
  sequence. Offsets and data are arbitrary.\<close>

lemma ApplyPatch_total_without_overflow:
  assumes "list_all (\<lambda>p. 0 \<le> sint (Length p)) ps"
    and "int (length oldData) + sum_list (map (\<lambda>p. sint (Length p)) ps) < 2 ^ 63"
  shows "\<exists>newData. ApplyPatchWithOptions oldData ps = Inr newData"
proof -
  have tail0: "0 \<le> sum_list (map (\<lambda>p. sint (Length p)) ps)"
    using assms(1) by (induction ps) simp_all
  have "sum_list (map (\<lambda>p. sint (Length p)) ps) < 2 ^ 63" using assms(2) by simp
  then have est: "\<not> sint (estimatedSize ps) < 0"
    using estimatedSize_nonneg [OF assms(1)] by simp
  obtain cursor' out' where
    loop: "applyLoop oldData ps (0, []) = Inr (cursor', out')" and c: "0 \<le> sint cursor'"
    using applyLoop_safe [OF assms(1), of 0 "int (length oldData)" oldData "[]"] assms(2)
    by auto
  show ?thesis using est loop c by (simp add: ApplyPatchWithOptions_def slice_def)
qed

text \<open>Claim C7 (the code departs from it). Operations whose offset exceeds \<open>|OLD|\<close> are
  to be skipped without a fatal error, with the result of the list without them. The
  replay loop does skip them (\<open>applyOp_skip\<close>, \<open>applyLoop_skip\<close>), but their lengths
  are already counted in the size estimate before the loop: on the empty \<open>OLD\<close>, two COPY
  operations at offset 1 with the non-negative lengths \<open>2 ^ 63 - 1\<close> and \<open>1\<close> make the
  estimate wrap to a negative number, and \<^verbatim>\<open>make([]byte, 0, estimatedSize)\<close> panics,
  while the list without the two operations yields the empty output.\<close>

theorem ApplyPatch_skipped_ops_panic:
  "int (length ([] :: byte list)) < sint (1 :: 64 word) \<and>
   0 \<le> sint (0x7FFFFFFFFFFFFFFF :: 64 word) \<and> 0 \<le> sint (1 :: 64 word) \<and>
   ApplyPatchWithOptions []
     [\<lparr>Op = OP_COPY, Offset = 1, Length = 0x7FFFFFFFFFFFFFFF, Data = []\<rparr>,
      \<lparr>Op = OP_COPY, Offset = 1, Length = 1, Data = []\<rparr>]
     = Inl MakeSliceOutOfRange \<and>
   ApplyPatchWithOptions [] [] = Inr []"
  by (simp add: ApplyPatchWithOptions_def applyOp_def estimatedSize_def estimateStep_def
        slice_def OP_defs)

text \<open>Claim C10 (the code departs from it). With every length non-negative the replay
  is to stay in bounds and return a byte sequence. That holds while no addition
  overflows (\<open>ApplyPatch_total_without_overflow\<close>), but on the empty \<open>OLD\<close>, two DELETE
  operations at offset 0 of length \<open>2 ^ 63 - 1\<close> each move the cursor to \<open>2 ^ 63 - 1\<close> and
  then, by wrap-around, to \<open>-2\<close>; the final \<^verbatim>\<open>oldData[cursor:]\<close> panics.\<close>

theorem ApplyPatch_cursor_overflow_panics:
  "0 \<le> sint (0x7FFFFFFFFFFFFFFF :: 64 word) \<and>
   applyLoop [] [\<lparr>Op = OP_DELETE, Offset = 0, Length = 0x7FFFFFFFFFFFFFFF, Data = []\<rparr>,
                 \<lparr>Op = OP_DELETE, Offset = 0, Length = 0x7FFFFFFFFFFFFFFF, Data = []\<rparr>] (0, [])
     = Inr (- 2, []) \<and>
   ApplyPatchWithOptions []
     [\<lparr>Op = OP_DELETE, Offset = 0, Length = 0x7FFFFFFFFFFFFFFF, Data = []\<rparr>,
      \<lparr>Op = OP_DELETE, Offset = 0, Length = 0x7FFFFFFFFFFFFFFF, Data = []\<rparr>]
     = Inl SliceBoundsOutOfRange"
  by (simp add: ApplyPatchWithOptions_def applyOp_def estimatedSize_def estimateStep_def
        slice_def OP_defs)

section \<open>The decoder on malformed streams\<close>

text \<open>Claim C9 (the code departs from it). \<^verbatim>\<open>DecodePatch\<close> is to return operations or
  an error on every input and never to build a buffer of negative size. On the 17 bytes
  of one INSERT with offset 0 and the length field \<open>-1\<close>, it reaches
  \<^verbatim>\<open>make([]byte, length)\<close> with \<open>length = -1\<close> and panics.\<close>

theorem DecodePatch_negative_length_panics:
  "sint (le_word [0xFF, 0xFF, 0xFF, 0xFF, 0xFF, 0xFF, 0xFF, 0xFF] :: 64 word) = - 1 \<and>
   DecodePatch [0x02, 0, 0, 0, 0, 0, 0, 0, 0, 0xFF, 0xFF, 0xFF, 0xFF, 0xFF, 0xFF, 0xFF, 0xFF]
     = Inl MakeSliceOutOfRange"
  by (simp add: DecodePatch_def decodeLoop.simps binary_Read_def ReadFull_def OP_defs)

text \<open>Claim C2 (the code departs from it). \<^verbatim>\<open>DecodeDiffFile\<close> is to reject a stream
  whose magic is not \<open>0x42444646\<close> or whose version is not 1. It compares neither field
  with anything: the stream below has the magic \<open>0xDEADBEEF\<close> and the version 7, and is
  decoded without an error into a record with one COPY operation.\<close>

theorem DecodeDiffFile_accepts_wrong_magic:
  "(le_word [0xEF, 0xBE, 0xAD, 0xDE] :: 32 word) \<noteq> PATCH_MAGIC \<and>
   (le_word [7, 0, 0, 0] :: 32 word) \<noteq> PATCH_VERSION \<and>
   DecodeDiffFile ([0xEF, 0xBE, 0xAD, 0xDE] @ [7, 0, 0, 0] @ replicate 84 0 @ [17, 0, 0, 0] @
                   [0x01, 0, 0, 0, 0, 0, 0, 0, 0, 3, 0, 0, 0, 0, 0, 0, 0]) =
     Inr (\<lparr>MagicNumber = 0xDEADBEEF, Version = 7, OldFileNameLength = 0, FileName = [],
           NewFileNameLength = 0, NewFileName = [], OldSize = 0, NewSize = 0,
           OldHash = replicate 32 0, NewHash = replicate 32 0,
           AlignOffset = 0, DataLength = 17,
           Diff = [\<lparr>Op = OP_COPY, Offset = 0, Length = 3, Data = []\<rparr>]\<rparr>, None)"
  by code_simp

section \<open>The hash gate of runApply\<close>

lemma CompareHashes_eq: "CompareHashes hash1 hash2 \<longleftrightarrow> hash1 = hash2"
proof (cases "length hash1 = length hash2")
  case False
  then show ?thesis by (auto simp: CompareHashes_def)
next
  case True
  have "list_all (\<lambda>i. hash1 ! i = hash2 ! i) [0..<length hash1]
        \<longleftrightarrow> (\<forall>i < length hash1. hash1 ! i = hash2 ! i)"
    by (auto simp: list_all_iff)
  also have "\<dots> \<longleftrightarrow> hash1 = hash2"
    using True by (subst list_eq_iff_nth_eq) simp
  finally show ?thesis using True by (simp add: CompareHashes_def)
qed

text \<open>Claim C4. For every \<open>OLD\<close> and every patch file that decodes to a record whose
  \<open>OldHash\<close> differs from the hash of \<open>OLD\<close>, \<^verbatim>\<open>runApply\<close> returns the hash-mismatch
  error and no output. The operation list is not replayed: the result is this error
  also for operation lists on which the replay would panic.\<close>

theorem runApply_hash_gate:
  assumes "DecodeDiffFile patchBytes = Inr (df, None)"
    and "OldHash df \<noteq> ComputeHash oldData"
  shows "runApply ComputeHash oldData patchBytes verifyResult = Inr (Inl HashMismatch)"
  using assms by (auto simp: runApply_def CompareHashes_eq)

lemma hash_gate_example_decodes:
  "DecodeDiffFile (replicate 92 0 @ [34, 0, 0, 0] @
      [0x05, 0, 0, 0, 0, 0, 0, 0, 0, 0xFF, 0xFF, 0xFF, 0xFF, 0xFF, 0xFF, 0xFF, 0x7F,
       0x05, 0, 0, 0, 0, 0, 0, 0, 0, 0xFF, 0xFF, 0xFF, 0xFF, 0xFF, 0xFF, 0xFF, 0x7F])
   = Inr (\<lparr>MagicNumber = 0, Version = 0, OldFileNameLength = 0, FileName = [],
           NewFileNameLength = 0, NewFileName = [], OldSize = 0, NewSize = 0,
           OldHash = replicate 32 0, NewHash = replicate 32 0,
           AlignOffset = 0, DataLength = 34,
           Diff = [\<lparr>Op = OP_DELETE, Offset = 0, Length = 0x7FFFFFFFFFFFFFFF, Data = []\<rparr>,
                   \<lparr>Op = OP_DELETE, Offset = 0, Length = 0x7FFFFFFFFFFFFFFF, Data = []\<rparr>]\<rparr>,
          None)"
  by code_simp

theorem runApply_hash_gate_witness:
  "replicate 32 (0 :: byte) \<noteq> (\<lambda>data. replicate 32 1) ([] :: byte list) \<and>
   runApply (\<lambda>data. replicate 32 1) [] (replicate 92 0 @ [34, 0, 0, 0] @
      [0x05, 0, 0, 0, 0, 0, 0, 0, 0, 0xFF, 0xFF, 0xFF, 0xFF, 0xFF, 0xFF, 0xFF, 0x7F,
       0x05, 0, 0, 0, 0, 0, 0, 0, 0, 0xFF, 0xFF, 0xFF, 0xFF, 0xFF, 0xFF, 0xFF, 0x7F]) True
   = Inr (Inl HashMismatch)"
proof -
  have ne: "replicate 32 (0 :: byte) \<noteq> replicate 32 1"
    by code_simp
  have "runApply (\<lambda>data. replicate 32 1) [] (replicate 92 0 @ [34, 0, 0, 0] @
      [0x05, 0, 0, 0, 0, 0, 0, 0, 0, 0xFF, 0xFF, 0xFF, 0xFF, 0xFF, 0xFF, 0xFF, 0x7F,
       0x05, 0, 0, 0, 0, 0, 0, 0, 0, 0xFF, 0xFF, 0xFF, 0xFF, 0xFF, 0xFF, 0xFF, 0x7F]) True
   = Inr (Inl HashMismatch)"
    by (rule runApply_hash_gate [OF hash_gate_example_decodes]) (simp add: ne)
  then show ?thesis using ne by simp
qed

section \<open>The streaming differ on two windows or more\<close>

lemma scanDiffer_one_zeros:
  "0 < n \<Longrightarrow> scanDiffer [1] (replicate n 0) (Suc 0) 0 = Suc 0"
  by (simp add: scanDiffer.simps [of _ _ "Suc 0" 0] scanDiffer.simps [of _ _ "Suc 0" "Suc 0"])

lemma sequentialDiff_one_zeros:
  assumes "2 \<le> n"
  shows "sequentialDiff [1] (replicate n 0) =
           [\<lparr>Op = OP_REPLACE, Offset = 0, Length = 1, Data = [0]\<rparr>,
            \<lparr>Op = OP_INSERT, Offset = 1, Length = of_nat (n - 1),
             Data = replicate (n - 1) 0\<rparr>]"
proof -
  have n: "0 < n" using assms by simp
  have ne: "[1 :: byte] ! 0 \<noteq> replicate n 0 ! 0" using n by simp
  have loop: "diffLoop [1] (replicate n 0) 1 0 [] =
                [\<lparr>Op = OP_REPLACE, Offset = 0, Length = 1, Data = [0]\<rparr>]"
    using n assms
    by (simp add: diffLoop_replace [OF _ ne] scanDiffer_one_zeros diffLoop_done
          take_Suc_conv_app_nth)
  have "length [1 :: byte] < length (replicate n (0 :: byte))" using assms by simp
  then show ?thesis using loop by (simp add: sequentialDiff_insert del: of_nat_diff)
qed

lemma window_op_list:
  "streamLoop [1] (replicate 1048576 0) 262144 0 [] =
     [\<lparr>Op = OP_REPLACE, Offset = 0, Length = 1, Data = [0]\<rparr>,
      \<lparr>Op = OP_INSERT, Offset = 1, Length = 262143, Data = replicate 262143 0\<rparr>,
      \<lparr>Op = OP_REPLACE, Offset = 262144, Length = 1, Data = [0]\<rparr>,
      \<lparr>Op = OP_INSERT, Offset = 262145, Length = 262143, Data = replicate 262143 0\<rparr>,
      \<lparr>Op = OP_REPLACE, Offset = 524288, Length = 1, Data = [0]\<rparr>,
      \<lparr>Op = OP_INSERT, Offset = 524289, Length = 262143, Data = replicate 262143 0\<rparr>,
      \<lparr>Op = OP_REPLACE, Offset = 786432, Length = 1, Data = [0]\<rparr>,
      \<lparr>Op = OP_INSERT, Offset = 786433, Length = 262143, Data = replicate 262143 0\<rparr>]"
proof -
  have w: "sequentialDiff [1] (replicate 262144 0) =
           [\<lparr>Op = OP_REPLACE, Offset = 0, Length = 1, Data = [0]\<rparr>,
            \<lparr>Op = OP_INSERT, Offset = 1, Length = 262143, Data = replicate 262143 0\<rparr>]"
    using sequentialDiff_one_zeros [of 262144] by simp
  show ?thesis
    by (simp add: streamLoop.simps [of _ _ _ 0] streamLoop.simps [of _ _ _ 262144]
          streamLoop.simps [of _ _ _ 524288] streamLoop.simps [of _ _ _ 786432]
          streamLoop.simps [of _ _ _ 1048576] Let_def w)
qed


lemma streamingDiff_example:
  "DiffWithOptions streamingTestConfig [1] (replicate 1048576 0) =
     [\<lparr>Op = OP_REPLACE, Offset = 0, Length = 1, Data = [0]\<rparr>,
      \<lparr>Op = OP_INSERT, Offset = 1, Length = 262143, Data = replicate 262143 0\<rparr>,
      \<lparr>Op = OP_REPLACE, Offset = 262144, Length = 1, Data = [0]\<rparr>,
      \<lparr>Op = OP_INSERT, Offset = 262145, Length = 262143, Data = replicate 262143 0\<rparr>,
      \<lparr>Op = OP_REPLACE, Offset = 524288, Length = 1, Data = [0]\<rparr>,
      \<lparr>Op = OP_INSERT, Offset = 524289, Length = 262143, Data = replicate 262143 0\<rparr>,
      \<lparr>Op = OP_REPLACE, Offset = 786432, Length = 1, Data = [0]\<rparr>,
      \<lparr>Op = OP_INSERT, Offset = 786433, Length = 262143, Data = replicate 262143 0\<rparr>]"
proof -
  have chunk: "nat (go_div (sint (1 * 1024 * 1024 :: 64 word)) 4) = 262144"
    by (simp add: go_div_def)
  have "DiffWithOptions streamingTestConfig [1] (replicate 1048576 0) =
          streamingDiff streamingTestConfig [1] (replicate 1048576 0)"
    by (simp add: DiffWithOptions_def streamingTestConfig_def)
  also have "\<dots> = optimizePatches (streamLoop [1] (replicate 1048576 0) 262144 0 [])"
    using chunk by (simp add: streamingDiff_def streamingTestConfig_def go_div_def)
  finally show ?thesis
    by (simp add: window_op_list optimizePatches_def optimizeStep_def canMergePatches_def
          OP_defs)
qed

text \<open>Claim C3 (the code departs from it). With the configuration of the repository's
  streaming test (\<open>MaxMemoryMB = 1\<close>), \<open>OLD\<close> the single byte 1 and \<open>NEW\<close> 1 MiB of zero
  bytes, the two sizes exceed the limit, so \<^verbatim>\<open>DiffWithOptions\<close> takes the streaming
  path with four windows of 256 KiB. Applying the resulting operation list to \<open>OLD\<close>
  yields 256 KiB of zero bytes, not \<open>NEW\<close>: the operations of the later windows carry
  offsets beyond \<open>|OLD|\<close> and are skipped.\<close>

theorem streamingDiff_does_not_reproduce_new:
  "int (length [1 :: byte] + length (replicate 1048576 (0 :: byte)))
     > sint (MaxMemoryMB streamingTestConfig * 1024 * 1024) \<and>
   ApplyPatchWithOptions [1] (DiffWithOptions streamingTestConfig [1] (replicate 1048576 0))
     = Inr (replicate 262144 0) \<and>
   replicate 262144 (0 :: byte) \<noteq> replicate 1048576 0"
proof -
  have size: "int (length [1 :: byte] + length (replicate 1048576 (0 :: byte)))
     > sint (MaxMemoryMB streamingTestConfig * 1024 * 1024)"
    by (simp add: streamingTestConfig_def)
  have ne: "replicate 262144 (0 :: byte) \<noteq> replicate 1048576 0"
  proof
    assume "replicate 262144 (0 :: byte) = replicate 1048576 0"
    then have "length (replicate 262144 (0 :: byte)) = length (replicate 1048576 (0 :: byte))"
      by (rule arg_cong)
    then show False by simp
  qed
  have app: "[0 :: byte] @ replicate 262143 0 = replicate 262144 0"
    using replicate_Suc [of 262143 "0 :: byte"] by simp
  have "ApplyPatchWithOptions [1] (DiffWithOptions streamingTestConfig [1] (replicate 1048576 0))
     = Inr ([0] @ replicate 262143 0)"
    by (simp add: streamingDiff_example ApplyPatchWithOptions_def estimatedSize_def
          estimateStep_def applyOp_def slice_def OP_defs)
  then show ?thesis using size ne app by simp
qed

section \<open>The codec round trip\<close>

lemma length_le_bytes: "length (le_bytes n w) = n"
  by (induction n arbitrary: w) simp_all

lemma le_word_le_bytes:
  "(le_word (le_bytes n w) :: 'a::len word) = take_bit (8 * n) w"
proof (induction n arbitrary: w)
  case 0
  show ?case by simp
next
  case (Suc n)
  show ?case
    by (rule bit_eqI) (auto simp: Suc bit_simps)
qed


lemma le_word_put_u32: "le_word (put_u32 w) = w"
  by (simp add: put_u32_def le_word_le_bytes take_bit_word_eq_self)

lemma le_word_put_i64: "le_word (put_i64 w) = w"
  by (simp add: put_i64_def le_word_le_bytes take_bit_word_eq_self)

lemma length_put_u32: "length (put_u32 w) = 4"
  by (simp add: put_u32_def length_le_bytes)

lemma length_put_i64: "length (put_i64 w) = 8"
  by (simp add: put_i64_def length_le_bytes)

lemma ReadFull_exact:
  "length xs = n \<Longrightarrow> ReadFull n (xs @ rest) = ((xs, None), rest)"
  by (auto simp: ReadFull_def)

lemma binary_Read_put_i64:
  "binary_Read 8 (put_i64 w @ rest) = (Inr w, rest)"
  by (simp add: binary_Read_def ReadFull_exact length_put_i64 le_word_put_i64)

lemma readU32_put_u32:
  "readU32 d (put_u32 w @ rest) = (w, rest)"
  by (simp add: readU32_def binary_Read_def ReadFull_exact length_put_u32 le_word_put_u32)

lemma decodeLoop_entry:
  assumes "wfPatch p"
  shows "decodeLoop (encodeEntry p @ rest) acc = decodeLoop rest (acc @ [p])"
proof (cases "Op p = OP_INSERT \<or> Op p = OP_REPLACE")
  case True
  then have len: "0 \<le> sint (Length p)" "length (Data p) = nat (sint (Length p))"
    using assms by (auto simp: wfPatch_def)
  have eq: "\<lparr>Op = Op p, Offset = Offset p, Length = Length p, Data = Data p\<rparr> = p" by simp
  show ?thesis
    using True len
    by (subst decodeLoop.simps)
       (simp add: encodeEntry_def binary_Read_put_i64 ReadFull_exact eq)
next
  case False
  then have "Data p = []" using assms by (simp add: wfPatch_def)
  then have eq: "\<lparr>Op = Op p, Offset = Offset p, Length = Length p, Data = []\<rparr> = p"
    by (metis Patch.surjective old.unit.exhaust)
  show ?thesis
    using False
    by (subst decodeLoop.simps)
       (simp add: encodeEntry_def binary_Read_put_i64 eq)
qed

lemma decodeLoop_EncodePatch:
  "list_all wfPatch ps \<Longrightarrow> decodeLoop (EncodePatch ps) acc = Inr (acc @ ps, None)"
proof (induction ps arbitrary: acc)
  case Nil
  show ?case by (simp add: EncodePatch_def decodeLoop.simps)
next
  case (Cons p ps)
  then have "wfPatch p" "list_all wfPatch ps" by simp_all
  then show ?case
    using Cons.IH [of "acc @ [p]"] decodeLoop_entry [of p "EncodePatch ps" acc]
    by (simp add: EncodePatch_def)
qed

lemma DecodePatch_EncodePatch:
  "list_all wfPatch ps \<Longrightarrow> DecodePatch (EncodePatch ps) = Inr (ps, None)"
  by (simp add: DecodePatch_def decodeLoop_EncodePatch)

lemma DecodeDiffFile_EncodeDiffFile:
  assumes "wfHeader df" "list_all wfPatch (Diff df)"
    and "length (EncodePatch (Diff df)) < 2 ^ 32"
  shows "DecodeDiffFile (EncodeDiffFile df) =
           Inr (df\<lparr>DataLength := of_nat (length (EncodePatch (Diff df)))\<rparr>, None)"
proof -
  have u: "unat (of_nat (length (EncodePatch (Diff df))) :: 32 word)
             = length (EncodePatch (Diff df))"
    using assms(3) by (simp add: unat_of_nat)
  have last: "ReadFull (length (EncodePatch (Diff df))) (EncodePatch (Diff df))
                = ((EncodePatch (Diff df), None), [])"
    using ReadFull_exact [of "EncodePatch (Diff df)" _ "[]"] by simp
  show ?thesis
    using assms(1)
    by (simp add: DecodeDiffFile_def EncodeDiffFile_def Let_def wfHeader_def
          readU32_put_u32 ReadFull_exact u last DecodePatch_EncodePatch [OF assms(2)])
qed


lemma wfPatch_diffLoop:
  assumes "minLen \<le> length newData" "minLen < 2 ^ 63"
  shows "i \<le> minLen \<Longrightarrow> list_all wfPatch (diffLoop oldData newData minLen i [])"
proof (induction "minLen - i" arbitrary: i rule: less_induct)
  case less
  show ?case
  proof (cases "i < minLen")
    case False
    then show ?thesis by (simp add: diffLoop_done)
  next
    case lt: True
    show ?thesis
    proof (cases "oldData ! i = newData ! i")
      case True
      define j where "j = scanEqual oldData newData minLen i"
      have ij: "i < j" unfolding j_def using lt True by (rule scanEqual_gt)
      have jm: "j \<le> minLen" unfolding j_def using less.prems by (rule scanEqual_le)
      have dec: "minLen - j < minLen - i" using ij lt by simp
      show ?thesis using less.hyps [OF dec jm]
        by (simp add: diffLoop_copy [OF lt True] wfPatch_def OP_defs flip: j_def)
    next
      case False
      define j where "j = scanDiffer oldData newData minLen i"
      have ij: "i < j" unfolding j_def using lt False by (rule scanDiffer_gt)
      have jm: "j \<le> minLen" unfolding j_def using less.prems by (rule scanDiffer_le)
      have dec: "minLen - j < minLen - i" using ij lt by simp
      have "j - i < 2 ^ 63" using jm assms(2) by simp
      then have s: "sint (of_nat (j - i) :: 64 word) = int (j - i)" by (rule sint_of_nat64)
      have l: "length (take (j - i) (drop i newData)) = j - i" using jm assms(1) by simp
      show ?thesis using less.hyps [OF dec jm] s l
        by (simp add: diffLoop_replace [OF lt False] wfPatch_def OP_defs del: of_nat_diff
              flip: j_def)
    qed
  qed
qed

lemma wfPatch_sequentialDiff:
  assumes "length oldData < 2 ^ 63" "length newData < 2 ^ 63"
  shows "list_all wfPatch (sequentialDiff oldData newData)"
proof -
  consider (ins) "length oldData < length newData" | (del) "length newData < length oldData"
    | (same) "length newData = length oldData" by linarith
  then show ?thesis
  proof cases
    case ins
    have "length newData - length oldData < 2 ^ 63" using assms(2) by simp
    then have s: "sint (of_nat (length newData - length oldData) :: 64 word)
                  = int (length newData - length oldData)" by (rule sint_of_nat64)
    show ?thesis
      using wfPatch_diffLoop [of "length oldData" newData 0 oldData] ins assms(1) s
      by (simp add: sequentialDiff_insert [OF ins] wfPatch_def OP_defs del: of_nat_diff)
  next
    case del
    show ?thesis
      using wfPatch_diffLoop [of "length newData" newData 0 oldData] assms(2)
      by (simp add: sequentialDiff_delete [OF del] wfPatch_def OP_defs del: of_nat_diff)
  next
    case same
    show ?thesis
      using wfPatch_diffLoop [of "length oldData" newData 0 oldData] same assms(1)
      by (simp add: sequentialDiff_same [OF same])
  qed
qed

text \<open>Claim C1, as amended. For all byte sequences \<open>A\<close> and \<open>B\<close> (of a length a Go slice
  can have) whose encoded operation stream is shorter than \<open>2 ^ 32\<close> bytes, the width of
  the container's length field, and every well-formed header: decoding the encoded
  container of \<^verbatim>\<open>sequentialDiff A B\<close> succeeds and returns the container with its
  \<open>DataLength\<close> set, and applying the decoded operation list to \<open>A\<close> yields \<open>B\<close>.\<close>

theorem patch_roundtrip:
  assumes "length A < 2 ^ 63" "length B < 2 ^ 63"
    and "wfHeader df" "Diff df = sequentialDiff A B"
    and "length (EncodePatch (sequentialDiff A B)) < 2 ^ 32"
  shows "DecodeDiffFile (EncodeDiffFile df) =
           Inr (df\<lparr>DataLength := of_nat (length (EncodePatch (sequentialDiff A B)))\<rparr>, None) \<and>
         ApplyPatchWithOptions A
           (Diff (df\<lparr>DataLength := of_nat (length (EncodePatch (sequentialDiff A B)))\<rparr>))
           = Inr B"
proof -
  have wf: "list_all wfPatch (Diff df)"
    using wfPatch_sequentialDiff [OF assms(1,2)] assms(4) by simp
  have len: "length (EncodePatch (Diff df)) < 2 ^ 32" using assms(4,5) by simp
  show ?thesis
    using DecodeDiffFile_EncodeDiffFile [OF assms(3) wf len] assms(4)
      apply_sequentialDiff [OF assms(1,2)]
    by simp
qed


theorem patch_roundtrip_witness:
  "length (EncodePatch (sequentialDiff [1, 2, 3] [1, 9, 3, 4])) = 70 \<and>
   take 8 (EncodeDiffFile exampleFile) = [0x46, 0x46, 0x44, 0x42, 0x01, 0x00, 0x00, 0x00] \<and>
   DecodeDiffFile (EncodeDiffFile exampleFile) = Inr (exampleFile\<lparr>DataLength := 70\<rparr>, None) \<and>
   ApplyPatchWithOptions [1, 2, 3] (Diff (exampleFile\<lparr>DataLength := 70\<rparr>)) = Inr [1, 9, 3, 4]"
proof -
  have len: "length (EncodePatch (sequentialDiff [1, 2, 3] [1, 9, 3, 4])) = 70"
    by code_simp
  have hd: "take 8 (EncodeDiffFile exampleFile) = [0x46, 0x46, 0x44, 0x42, 0x01, 0x00, 0x00, 0x00]"
    by code_simp
  have wf: "wfHeader exampleFile"
    by (simp add: wfHeader_def exampleFile_def)
  have d: "Diff exampleFile = sequentialDiff [1, 2, 3] [1, 9, 3, 4]"
    by (simp add: exampleFile_def)
  have a: "length [1, 2, 3 :: byte] < 2 ^ 63" and b: "length [1, 9, 3, 4 :: byte] < 2 ^ 63"
    by simp_all
  have l32: "length (EncodePatch (sequentialDiff [1, 2, 3] [1, 9, 3, 4])) < 2 ^ 32"
    using len by simp
  show ?thesis
    using patch_roundtrip [OF a b wf d l32] len hd by simp
qed


text \<open>The differ's output on the empty \<open>A\<close> and 4 GiB of zero bytes: one INSERT.\<close>

lemma sequentialDiff_empty_zeros:
  "sequentialDiff [] (replicate 4294967296 0) =
     [\<lparr>Op = OP_INSERT, Offset = 0, Length = 4294967296, Data = replicate 4294967296 0\<rparr>]"
  by (simp add: sequentialDiff_insert diffLoop_done)

lemma EncodePatch_empty_zeros:
  "EncodePatch (sequentialDiff [] (replicate 4294967296 0)) =
     [0x02, 0, 0, 0, 0, 0, 0, 0, 0, 0, 0, 0, 0, 1, 0, 0, 0] @ replicate 4294967296 0"
proof -
  have p0: "put_i64 0 = [0, 0, 0, 0, 0, 0, 0, 0]" by code_simp
  have p1: "put_i64 4294967296 = [0, 0, 0, 0, 1, 0, 0, 0]" by code_simp
  show ?thesis
    by (simp add: sequentialDiff_empty_zeros EncodePatch_def encodeEntry_def p0 p1 OP_defs)
qed

text \<open>Claim C1, as stated for all byte sequences, fails where the encoded operation
  stream does not fit the 32-bit length field: for the empty \<open>A\<close> and \<open>B\<close> of
  \<open>2 ^ 32\<close> zero bytes the stream has \<open>2 ^ 32 + 17\<close> bytes, \<^verbatim>\<open>EncodeDiffFile\<close> writes
  the length 17, and \<^verbatim>\<open>DecodeDiffFile\<close> returns the error \<^verbatim>\<open>EOF\<close> and no
  operations.\<close>

theorem patch_roundtrip_counterexample:
  "wfHeader hugeFile \<and>
   length (EncodePatch (sequentialDiff [] (replicate 4294967296 0))) = 4294967313 \<and>
   DecodeDiffFile (EncodeDiffFile hugeFile) =
     Inr (hugeFile\<lparr>DataLength := 17, Diff := []\<rparr>, Some EOF) \<and>
   ApplyPatchWithOptions [] (Diff (hugeFile\<lparr>DataLength := 17, Diff := []\<rparr>)) = Inr [] \<and>
   [] \<noteq> replicate 4294967296 (0 :: byte)"
proof -
  have wf: "wfHeader hugeFile" by (simp add: wfHeader_def hugeFile_def)
  have len: "length (EncodePatch (sequentialDiff [] (replicate 4294967296 0))) = 4294967313"
    by (simp add: EncodePatch_empty_zeros)
  have trunc: "(of_nat 4294967313 :: 32 word) = 17" by simp
  have dl: "(of_nat (length (EncodePatch (sequentialDiff [] (replicate 4294967296 0))))
              :: 32 word) = 17"
    by (simp only: len trunc)
  have rd: "ReadFull 17 ([0x02, 0, 0, 0, 0, 0, 0, 0, 0, 0, 0, 0, 0, 1, 0, 0, 0]
                          @ replicate 4294967296 0)
            = (([0x02, 0, 0, 0, 0, 0, 0, 0, 0, 0, 0, 0, 0, 1, 0, 0, 0], None),
               replicate 4294967296 0)"
    by (rule ReadFull_exact) simp
  have dec: "DecodePatch [0x02, 0, 0, 0, 0, 0, 0, 0, 0, 0, 0, 0, 0, 1, 0, 0, 0]
             = Inr ([], Some EOF)"
    by (simp add: DecodePatch_def decodeLoop.simps binary_Read_def ReadFull_def OP_defs)
  have enc: "EncodeDiffFile hugeFile =
     put_u32 PATCH_MAGIC @ put_u32 PATCH_VERSION @ put_u32 0 @ [] @ put_u32 0 @ [] @
     put_u32 0 @ put_u32 0 @ replicate 32 0 @ replicate 32 0 @ put_u32 0 @ put_u32 17 @
     ([0x02, 0, 0, 0, 0, 0, 0, 0, 0, 0, 0, 0, 0, 1, 0, 0, 0] @ replicate 4294967296 0)"
    unfolding EncodeDiffFile_def Let_def
    apply (simp only: hugeFile_def DiffFile.simps dl)
    apply (simp only: EncodePatch_empty_zeros)
    done
  have "DecodeDiffFile (EncodeDiffFile hugeFile) =
     Inr (hugeFile\<lparr>DataLength := 17, Diff := []\<rparr>, Some EOF)"
    unfolding enc DecodeDiffFile_def
    by (simp only: readU32_put_u32 ReadFull_exact [OF length_replicate] append_Nil
          unat_0 ReadFull_exact [of "[]" 0, simplified] prod.case)
       (simp add: rd [unfolded append_Cons append_Nil] dec hugeFile_def sequentialDiff_empty_zeros)
  moreover have "ApplyPatchWithOptions [] (Diff (hugeFile\<lparr>DataLength := 17, Diff := []\<rparr>))
                   = Inr []"
    by (simp add: ApplyPatchWithOptions_def estimatedSize_def)
  moreover have "[] \<noteq> replicate 4294967296 (0 :: byte)"
    by (simp add: replicate_empty)
  ultimately show ?thesis using wf len by simp
qed

end
